theory Spec2Isabelle
  imports Complex_Main "HOL-Library.AList"
begin

section \<open>The game interface\<close>

text \<open>
  The search code receives a \<open>board\<close> object and only ever calls six of its methods.
  The board is a record of these six functions over an arbitrary state type \<open>'s\<close> and
  action type \<open>'a\<close>. Player identities are the integers the code compares with
  (\<open>me == 1\<close>). \<open>owned_boxes\<close> is a dictionary from cells to owners, \<open>points_values\<close>
  a dictionary from identities to points or Python's \<open>None\<close>; both are association
  lists. The methods are total and pure: an exception raised inside the board is outside
  this development.
\<close>

record ('s, 'a) board =
  legal_actions :: "'s \<Rightarrow> 'a list"
  next_state :: "'s \<Rightarrow> 'a \<Rightarrow> 's"
  current_player :: "'s \<Rightarrow> nat"
  is_ended :: "'s \<Rightarrow> bool"
  owned_boxes :: "'s \<Rightarrow> (nat \<times> nat) list"
  points_values :: "'s \<Rightarrow> (nat \<times> int) list option"

section \<open>Errors and the random source\<close>

text \<open>
  The Python exceptions that the search code itself can raise, and \<open>RecursionError\<close>,
  which the interpreter raises at a call that would exceed its recursion limit.
\<close>

datatype error = IndexError | ZeroDivisionError | ValueError | KeyError | RecursionError

text \<open>
  \<open>random.choice\<close> draws from the interpreter's generator. The generator is an
  infinite sequence of raw draws; \<open>choice\<close> consumes the first one and raises
  \<open>IndexError\<close> on an empty sequence, as the library function does.
\<close>

type_synonym rng = "nat \<Rightarrow> nat"

definition choice :: "rng \<Rightarrow> 'a list \<Rightarrow> error + ('a \<times> rng)" where
  "choice r xs =
     (if xs = [] then Inl IndexError
      else Inr (xs ! (r 0 mod length xs), \<lambda>k. r (Suc k)))"

section \<open>Tree nodes in a store\<close>

text \<open>
  Nodes are mutable objects that refer to each other in both directions (\<open>parent\<close>
  upwards, \<open>child_nodes\<close> downwards), so they live in a store: a list of node records,
  a reference being an index into it. Allocation appends to the list. \<open>child_nodes\<close> is
  a dictionary whose iteration order the code depends on; it is an association list kept
  in insertion order. The two counters start at 0 and are only ever incremented, hence
  natural numbers.
\<close>

record 'a node =
  parent :: "nat option"
  parent_action :: "'a option"
  child_nodes :: "('a \<times> nat) list"
  untried_actions :: "'a list"
  wins :: nat
  visits :: nat

type_synonym 'a heap = "'a node list"

text \<open>
  Modelled from the spec: the class \<open>MCTSNode\<close> is imported from \<open>mcts_node\<close>, which is
  not among the sources. The constructor takes the parent, the parent action and the
  action list; a new node has no children, all of the given actions untried, and both
  counters at 0.
\<close>

definition MCTSNode :: "nat option \<Rightarrow> 'a option \<Rightarrow> 'a list \<Rightarrow> 'a node" where
  "MCTSNode p pa action_list =
     \<lparr>parent = p, parent_action = pa, child_nodes = [],
      untried_actions = action_list, wins = 0, visits = 0\<rparr>"

definition num_nodes :: nat where
  "num_nodes = 1000"

definition explore_faction :: real where
  "explore_faction = 2"

section \<open>Selection\<close>

text \<open>
  The lambda \<open>explore\<close> of \<open>traverse_nodes\<close>:
  \<open>(w / n) + (c * sqrt((log(t) / n)))\<close>. Python evaluates \<open>w / n\<close> first and raises
  \<open>ZeroDivisionError\<close> for \<open>n = 0\<close>; \<open>log(t)\<close> raises \<open>ValueError\<close> for \<open>t = 0\<close>. For
  \<open>t \<ge> 1\<close> the argument of \<open>sqrt\<close> is not negative. Scores are the exact real values of
  the float expression.
\<close>

definition explore :: "nat \<Rightarrow> nat \<Rightarrow> nat \<Rightarrow> real \<Rightarrow> error + real" where
  "explore w n t c =
     (if n = 0 then Inl ZeroDivisionError
      else if t = 0 then Inl ValueError
      else Inr (real w / real n + c * sqrt (ln (real t) / real n)))"

text \<open>
  The \<open>for child in node.child_nodes\<close> loop, carrying \<open>bestest\<close> and \<open>new_node\<close>.
  The keys of a dictionary are distinct, so that walking the association list pairwise is
  walking the keys and looking each one up.
\<close>

fun traverse_loop ::
  "'a heap \<Rightarrow> nat \<Rightarrow> ('a \<times> nat) list \<Rightarrow> real \<times> nat \<Rightarrow> error + (real \<times> nat)" where
  "traverse_loop h node [] acc = Inr acc"
| "traverse_loop h node ((child, c) # cs) (bestest, new_node) =
     (case explore (wins (h ! c)) (visits (h ! c)) (visits (h ! node)) explore_faction of
        Inl e \<Rightarrow> Inl e
      | Inr v \<Rightarrow>
          traverse_loop h node cs
            (if v > bestest then (v, c) else (bestest, new_node)))"

text \<open>
  \<open>traverse_nodes\<close> recurses for as long as some child scores above 0. \<open>None\<close> is a
  recursion that never returns, \<open>Some (Inl e)\<close> an exception, \<open>Some (Inr n)\<close> the node
  returned. \<open>board\<close>, \<open>state\<close> and \<open>identity\<close> are handed on as they were received.
\<close>

partial_function (option) traverse_nodes ::
  "'a heap \<Rightarrow> nat \<Rightarrow> ('s, 'a) board \<Rightarrow> 's \<Rightarrow> nat \<Rightarrow> (error + nat) option" where
  "traverse_nodes h node brd state identity =
     (if untried_actions (h ! node) = [] then
        (case traverse_loop h node (child_nodes (h ! node)) (0, node) of
           Inl e \<Rightarrow> Some (Inl e)
         | Inr bn \<Rightarrow>
             if fst bn \<noteq> 0 then traverse_nodes h (snd bn) brd state identity
             else Some (Inr (snd bn)))
      else Some (Inr node))"

declare traverse_nodes.simps [code]

text \<open>
  The same function, recording the arguments \<open>(node, state)\<close> of every call it makes to
  itself, outermost first.
\<close>

partial_function (option) traverse_calls ::
  "'a heap \<Rightarrow> nat \<Rightarrow> ('s, 'a) board \<Rightarrow> 's \<Rightarrow> nat \<Rightarrow> (nat \<times> 's) list
     \<Rightarrow> (error + (nat \<times> 's) list) option" where
  "traverse_calls h node brd state identity calls =
     (if untried_actions (h ! node) = [] then
        (case traverse_loop h node (child_nodes (h ! node)) (0, node) of
           Inl e \<Rightarrow> Some (Inl e)
         | Inr bn \<Rightarrow>
             if fst bn \<noteq> 0
             then traverse_calls h (snd bn) brd state identity (calls @ [(snd bn, state)])
             else Some (Inr calls))
      else Some (Inr calls))"

declare traverse_calls.simps [code]

section \<open>Expansion\<close>

text \<open>
  \<open>expand_leaf\<close> of the iteration-count file: no check of the state.
  \<open>node.child_nodes[action] = ...\<close> keeps the position of a key that is already there
  and appends a new one, which is \<open>AList.update\<close>; \<open>list.remove\<close> removes the first
  occurrence, and the action was drawn from that list.
\<close>

definition expand_leaf ::
  "'a heap \<Rightarrow> nat \<Rightarrow> ('s, 'a) board \<Rightarrow> 's \<Rightarrow> rng \<Rightarrow> error + ('a heap \<times> nat \<times> 's \<times> rng)" where
  "expand_leaf h node brd state r =
     (case choice r (untried_actions (h ! node)) of
        Inl e \<Rightarrow> Inl e
      | Inr (action, r') \<Rightarrow>
          (let state' = next_state brd state action;
               actions = legal_actions brd state';
               c = length h;
               h1 = h @ [MCTSNode (Some node) (Some action) actions];
               h2 = h1[node := (h1 ! node)\<lparr>child_nodes :=
                      AList.update action c (child_nodes (h1 ! node))\<rparr>];
               h3 = h2[node := (h2 ! node)\<lparr>untried_actions :=
                      remove1 action (untried_actions (h2 ! node))\<rparr>]
           in Inr (h3, c, state', r')))"

text \<open>\<open>expand_leaf\<close> of the time-budget file: the same, behind \<open>board.is_ended(state)\<close>.\<close>

definition expand_leaf_vanilla ::
  "'a heap \<Rightarrow> nat \<Rightarrow> ('s, 'a) board \<Rightarrow> 's \<Rightarrow> rng \<Rightarrow> error + ('a heap \<times> nat \<times> 's \<times> rng)" where
  "expand_leaf_vanilla h node brd state r =
     (if \<not> is_ended brd state then expand_leaf h node brd state r
      else Inr (h, node, state, r))"

section \<open>Simulation\<close>

text \<open>The rollout of the time-budget file: random moves until the board says ended.\<close>

partial_function (option) rollout_vanilla ::
  "('s, 'a) board \<Rightarrow> 's \<Rightarrow> rng \<Rightarrow> (error + ('s \<times> rng)) option" where
  "rollout_vanilla brd state r =
     (if \<not> is_ended brd state then
        (case choice r (legal_actions brd state) of
           Inl e \<Rightarrow> Some (Inl e)
         | Inr ar \<Rightarrow> rollout_vanilla brd (next_state brd state (fst ar)) (snd ar))
      else Some (Inr (state, r)))"

declare rollout_vanilla.simps [code]

text \<open>
  The rollout of the iteration-count file. Its helper \<open>outcome\<close> reads the points of
  identities 1 and 2 (a missing key raises \<open>KeyError\<close>) or counts the owned boxes.
\<close>

definition ROLLOUTS :: nat where
  "ROLLOUTS = 10"

definition MAX_DEPTH :: nat where
  "MAX_DEPTH = 5"

definition outcome ::
  "nat \<Rightarrow> (nat \<times> nat) list \<Rightarrow> (nat \<times> int) list option \<Rightarrow> error + int" where
  "outcome me owned game_points =
     (case game_points of
        Some gp \<Rightarrow>
          (case map_of gp 1 of
             None \<Rightarrow> Inl KeyError
           | Some p1 \<Rightarrow>
               (case map_of gp 2 of
                  None \<Rightarrow> Inl KeyError
                | Some p2 \<Rightarrow>
                    (let red_score = p1 * 9; blue_score = p2 * 9
                     in Inr (if me = 1 then red_score - blue_score
                             else blue_score - red_score))))
      | None \<Rightarrow>
          (let red_score = int (length (filter (\<lambda>v. v = 1) (map snd owned)));
               blue_score = int (length (filter (\<lambda>v. v = 2) (map snd owned)))
           in Inr (if me = 1 then red_score - blue_score else blue_score - red_score)))"

text \<open>\<open>for i in range(MAX_DEPTH)\<close>: random moves, stopping early at an ended state.\<close>

fun playout :: "nat \<Rightarrow> ('s, 'a) board \<Rightarrow> 's \<Rightarrow> rng \<Rightarrow> error + ('s \<times> rng)" where
  "playout 0 brd rollout_state r = Inr (rollout_state, r)"
| "playout (Suc i) brd rollout_state r =
     (if is_ended brd rollout_state then Inr (rollout_state, r)
      else (case choice r (legal_actions brd rollout_state) of
              Inl e \<Rightarrow> Inl e
            | Inr (rollout_move, r') \<Rightarrow>
                playout i brd (next_state brd rollout_state rollout_move) r'))"

text \<open>\<open>for r in range(ROLLOUTS)\<close>: the sum of the outcomes of the sampled games.\<close>

fun sample_games ::
  "nat \<Rightarrow> ('s, 'a) board \<Rightarrow> nat \<Rightarrow> 's \<Rightarrow> 'a \<Rightarrow> real \<Rightarrow> rng \<Rightarrow> error + (real \<times> rng)" where
  "sample_games 0 brd me state move total_score r = Inr (total_score, r)"
| "sample_games (Suc k) brd me state move total_score r =
     (case playout MAX_DEPTH brd (next_state brd state move) r of
        Inl e \<Rightarrow> Inl e
      | Inr (rollout_state, r') \<Rightarrow>
          (case outcome me (owned_boxes brd rollout_state)
                  (points_values brd rollout_state) of
             Inl e \<Rightarrow> Inl e
           | Inr sc \<Rightarrow>
               sample_games k brd me state move (total_score + real_of_int sc) r'))"

text \<open>
  \<open>for move in moves\<close>: \<open>best_expectation\<close> starts at minus infinity, which is
  \<open>None\<close> here; every expectation is greater than it.
\<close>

fun best_move_loop ::
  "('s, 'a) board \<Rightarrow> nat \<Rightarrow> 's \<Rightarrow> 'a list \<Rightarrow> 'a \<times> real option \<Rightarrow> rng
     \<Rightarrow> error + (('a \<times> real option) \<times> rng)" where
  "best_move_loop brd me state [] best r = Inr (best, r)"
| "best_move_loop brd me state (move # moves) (best_move, best_expectation) r =
     (case sample_games ROLLOUTS brd me state move 0 r of
        Inl e \<Rightarrow> Inl e
      | Inr (total_score, r') \<Rightarrow>
          (let expectation = total_score / real ROLLOUTS
           in best_move_loop brd me state moves
                (if (case best_expectation of None \<Rightarrow> True | Some b \<Rightarrow> expectation > b)
                 then (move, Some expectation) else (best_move, best_expectation)) r'))"

text \<open>One pass through the body of the \<open>while\<close> loop.\<close>

definition rollout_body ::
  "('s, 'a) board \<Rightarrow> nat \<Rightarrow> 's \<Rightarrow> rng \<Rightarrow> error + ('s \<times> rng)" where
  "rollout_body brd me state r =
     (if current_player brd state = me then
        (case legal_actions brd state of
           [] \<Rightarrow> Inl IndexError
         | m0 # ms \<Rightarrow>
             (case best_move_loop brd me state (m0 # ms) (m0, None) r of
                Inl e \<Rightarrow> Inl e
              | Inr ((best_move, best_expectation), r') \<Rightarrow>
                  Inr (next_state brd state best_move, r')))
      else (case choice r (legal_actions brd state) of
              Inl e \<Rightarrow> Inl e
            | Inr (a, r') \<Rightarrow> Inr (next_state brd state a, r')))"

text \<open>
  The loop is \<open>while not board.is_ended:\<close>. The condition names the method and does not
  call it. Python's truth value of a function or bound method object is \<open>True\<close>, whatever
  the method would return.
\<close>

definition truth_of_method :: "('s \<Rightarrow> bool) \<Rightarrow> bool" where
  "truth_of_method m = True"

partial_function (option) rollout_loop ::
  "('s, 'a) board \<Rightarrow> nat \<Rightarrow> 's \<Rightarrow> rng \<Rightarrow> (error + ('s \<times> rng)) option" where
  "rollout_loop brd me state r =
     (if \<not> truth_of_method (is_ended brd) then
        (case rollout_body brd me state r of
           Inl e \<Rightarrow> Some (Inl e)
         | Inr sr \<Rightarrow> rollout_loop brd me (fst sr) (snd sr))
      else Some (Inr (state, r)))"

declare rollout_loop.simps [code]

definition rollout :: "('s, 'a) board \<Rightarrow> 's \<Rightarrow> rng \<Rightarrow> (error + ('s \<times> rng)) option" where
  "rollout brd state r = rollout_loop brd (current_player brd state) state r"

section \<open>Backpropagation\<close>

partial_function (option) backpropagate :: "'a heap \<Rightarrow> nat \<Rightarrow> bool \<Rightarrow> 'a heap option" where
  "backpropagate h node won =
     (let h1 = (if won then h[node := (h ! node)\<lparr>wins := wins (h ! node) + 1\<rparr>] else h);
          h2 = h1[node := (h1 ! node)\<lparr>visits := visits (h1 ! node) + 1\<rparr>]
      in (case parent (h2 ! node) of
            None \<Rightarrow> Some h2
          | Some p \<Rightarrow> backpropagate h2 p won))"

declare backpropagate.simps [code]

section \<open>The driver\<close>

text \<open>
  One pass through the body of \<open>for step in range(num_nodes)\<close>. The root is reference
  0. \<open>node\<close> is the root unless expansion replaces it.
\<close>

definition mcts_step ::
  "('s, 'a) board \<Rightarrow> 's \<Rightarrow> nat \<Rightarrow> 'a heap \<times> rng \<Rightarrow> (error + ('a heap \<times> rng)) option" where
  "mcts_step brd state identity_of_bot hr =
     (let sampled_game = state; node = 0
      in (case traverse_nodes (fst hr) node brd sampled_game identity_of_bot of
            None \<Rightarrow> None
          | Some (Inl e) \<Rightarrow> Some (Inl e)
          | Some (Inr leaf) \<Rightarrow>
              (case (if untried_actions (fst hr ! leaf) \<noteq> []
                     then expand_leaf (fst hr) leaf brd sampled_game (snd hr)
                     else Inr (fst hr, node, sampled_game, snd hr)) of
                 Inl e \<Rightarrow> Some (Inl e)
               | Inr (h1, node1, sampled1, r1) \<Rightarrow>
                   (case rollout brd sampled1 r1 of
                      None \<Rightarrow> None
                    | Some (Inl e) \<Rightarrow> Some (Inl e)
                    | Some (Inr (sampled2, r2)) \<Rightarrow>
                        (let player = current_player brd sampled2;
                             won = (player \<noteq> identity_of_bot)
                         in (case backpropagate h1 node1 won of
                               None \<Rightarrow> None
                             | Some h2 \<Rightarrow> Some (Inr (h2, r2))))))))"

fun think_loop ::
  "nat \<Rightarrow> ('s, 'a) board \<Rightarrow> 's \<Rightarrow> nat \<Rightarrow> 'a heap \<times> rng \<Rightarrow> (error + ('a heap \<times> rng)) option" where
  "think_loop 0 brd state identity_of_bot hr = Some (Inr hr)"
| "think_loop (Suc k) brd state identity_of_bot hr =
     (case mcts_step brd state identity_of_bot hr of
        None \<Rightarrow> None
      | Some (Inl e) \<Rightarrow> Some (Inl e)
      | Some (Inr hr') \<Rightarrow> think_loop k brd state identity_of_bot hr')"

text \<open>
  The closing loop over the root's children, carrying \<open>action\<close> and \<open>best\<close>;
  both files end with it.
  \<open>float(wins) / float(visits)\<close> raises \<open>ZeroDivisionError\<close> for no visits; the ratio
  is the exact one.
\<close>

fun best_action_loop ::
  "'a heap \<Rightarrow> ('a \<times> nat) list \<Rightarrow> 'a option \<times> real \<Rightarrow> error + ('a option \<times> real)" where
  "best_action_loop h [] acc = Inr acc"
| "best_action_loop h ((child, c) # cs) (action, best) =
     (if visits (h ! c) = 0 then Inl ZeroDivisionError
      else (let v = real (wins (h ! c)) / real (visits (h ! c))
            in best_action_loop h cs
                 (if v \<ge> best then (parent_action (h ! c), v) else (action, best))))"

definition root_tree :: "('s, 'a) board \<Rightarrow> 's \<Rightarrow> 'a heap" where
  "root_tree brd state = [MCTSNode None None (legal_actions brd state)]"

definition think_n ::
  "nat \<Rightarrow> ('s, 'a) board \<Rightarrow> 's \<Rightarrow> rng \<Rightarrow> (error + 'a option) option" where
  "think_n n brd state r =
     (let identity_of_bot = current_player brd state
      in (case think_loop n brd state identity_of_bot (root_tree brd state, r) of
            None \<Rightarrow> None
          | Some (Inl e) \<Rightarrow> Some (Inl e)
          | Some (Inr (h, r')) \<Rightarrow>
              (case best_action_loop h (child_nodes (h ! 0)) (None, 0) of
                 Inl e \<Rightarrow> Some (Inl e)
               | Inr (action, best) \<Rightarrow> Some (Inr action))))"

definition think :: "('s, 'a) board \<Rightarrow> 's \<Rightarrow> rng \<Rightarrow> (error + 'a option) option" where
  "think brd state r = think_n num_nodes brd state r"

section \<open>Under the interpreter's recursion limit\<close>


text \<open>
  \<open>backpropagate\<close> has updated the nodes it has passed when the exception is raised; the
  store as it is then comes with the exception.
\<close>

fun backpropagate_limit ::
  "nat \<Rightarrow> 'a heap \<Rightarrow> nat \<Rightarrow> bool \<Rightarrow> (error \<times> 'a heap) + 'a heap" where
  "backpropagate_limit 0 h node won = Inl (RecursionError, h)"
| "backpropagate_limit (Suc d) h node won =
     (let h1 = (if won then h[node := (h ! node)\<lparr>wins := wins (h ! node) + 1\<rparr>] else h);
          h2 = h1[node := (h1 ! node)\<lparr>visits := visits (h1 ! node) + 1\<rparr>]
      in (case parent (h2 ! node) of
            None \<Rightarrow> Inr h2
          | Some p \<Rightarrow> backpropagate_limit d h2 p won))"





section \<open>Specification vocabulary\<close>

text \<open>
  What one call of \<open>backpropagate\<close> does to one node: the visit counter goes up by one,
  the win counter too when \<open>won\<close> holds.
\<close>

definition bump :: "bool \<Rightarrow> 'a node \<Rightarrow> 'a node" where
  "bump won nd = nd\<lparr>wins := wins nd + (if won then 1 else 0), visits := visits nd + 1\<rparr>"

text \<open>\<open>on_chain h n m\<close>: node \<open>m\<close> is \<open>n\<close> or is reached from \<open>n\<close> by parent links.\<close>

inductive on_chain :: "'a heap \<Rightarrow> nat \<Rightarrow> nat \<Rightarrow> bool" for h :: "'a heap" where
  start: "on_chain h n n"
| step: "parent (h ! n) = Some p \<Longrightarrow> on_chain h p m \<Longrightarrow> on_chain h n m"

text \<open>
  A parent is allocated before its children: \<open>MCTSNode(node, ...)\<close> takes an existing
  node. In the store a parent therefore has the smaller reference, and no parent chain
  has a cycle.
\<close>

definition parents_below :: "'a heap \<Rightarrow> bool" where
  "parents_below h = (\<forall>i<length h. \<forall>p. parent (h ! i) = Some p \<longrightarrow> p < i)"

text \<open>\<open>chain_len h n k\<close>: the parent chain from \<open>n\<close> to the root has \<open>k\<close> nodes.\<close>

inductive chain_len :: "'a heap \<Rightarrow> nat \<Rightarrow> nat \<Rightarrow> bool" for h :: "'a heap" where
  root: "parent (h ! n) = None \<Longrightarrow> chain_len h n 1"
| up: "parent (h ! n) = Some p \<Longrightarrow> chain_len h p k \<Longrightarrow> chain_len h n (Suc k)"

text \<open>The store after the nodes of the chain from \<open>n\<close> have been bumped.\<close>

definition bumped :: "'a heap \<Rightarrow> nat \<Rightarrow> bool \<Rightarrow> 'a heap" where
  "bumped h n won =
     map (\<lambda>i. if on_chain h n i then bump won (h ! i) else h ! i) [0..<length h]"

section \<open>A small game and a small tree\<close>

text \<open>
  A take-away game: the state is the number of tokens left and the identity to move, a
  move takes one or two tokens, and the game has ended when no token is left.
\<close>

definition nim :: "(nat \<times> nat, nat) board" where
  "nim = \<lparr>legal_actions = (\<lambda>s. filter (\<lambda>k. k \<le> fst s) [1, 2]),
          next_state = (\<lambda>s k. (fst s - k, 3 - snd s)),
          current_player = snd,
          is_ended = (\<lambda>s. fst s = 0),
          owned_boxes = (\<lambda>s. []),
          points_values = (\<lambda>s. None)\<rparr>"

definition rng0 :: rng where
  "rng0 = (\<lambda>k. 0)"

text \<open>A root with two children, nothing visited yet.\<close>

definition tree3 :: "nat heap" where
  "tree3 =
     [\<lparr>parent = None, parent_action = None, child_nodes = [(1, 1), (2, 2)],
       untried_actions = [], wins = 0, visits = 0\<rparr>,
      \<lparr>parent = Some 0, parent_action = Some 1, child_nodes = [],
       untried_actions = [1], wins = 0, visits = 0\<rparr>,
      \<lparr>parent = Some 0, parent_action = Some 2, child_nodes = [],
       untried_actions = [], wins = 0, visits = 0\<rparr>]"

section \<open>Invariants of the tree\<close>

text \<open>
  The shape of a tree: the store is not empty, reference 0 is the root and the only node
  without a parent, and every entry of a \<open>child_nodes\<close> dictionary refers to a later
  node of the store whose \<open>parent\<close> refers back.
\<close>

definition struct_inv :: "'a heap \<Rightarrow> bool" where
  "struct_inv h =
     (h \<noteq> [] \<and> parents_below h \<and>
      (\<forall>i<length h. (parent (h ! i) = None) = (i = 0)) \<and>
      (\<forall>i<length h. \<forall>ac\<in>set (child_nodes (h ! i)).
         i < snd ac \<and> snd ac < length h \<and> parent (h ! snd ac) = Some i))"

text \<open>The counters: no more wins than visits, no more visits than the parent has.\<close>

definition count_inv :: "'a heap \<Rightarrow> bool" where
  "count_inv h =
     ((\<forall>i<length h. wins (h ! i) \<le> visits (h ! i)) \<and>
      (\<forall>i<length h. \<forall>p. parent (h ! i) = Some p \<longrightarrow> visits (h ! i) \<le> visits (h ! p)))"

text \<open>
  Every node but the root and node \<open>c\<close> has been visited. Between two iterations this
  holds with \<open>c = 0\<close>; between expansion and backpropagation \<open>c\<close> is the new node.
\<close>

definition visited_but :: "'a heap \<Rightarrow> nat \<Rightarrow> bool" where
  "visited_but h c = (\<forall>i<length h. 0 < i \<longrightarrow> i \<noteq> c \<longrightarrow> 1 \<le> visits (h ! i))"

definition tree_inv :: "'a heap \<Rightarrow> bool" where
  "tree_inv h = (struct_inv h \<and> count_inv h \<and> visited_but h 0)"

text \<open>The store after \<open>expand_leaf\<close> has drawn action \<open>a\<close> at \<open>node\<close>.\<close>

definition expanded :: "'a heap \<Rightarrow> nat \<Rightarrow> 'a \<Rightarrow> 'a list \<Rightarrow> 'a heap" where
  "expanded h node a acts =
     (h @ [MCTSNode (Some node) (Some a) acts])
       [node := (h ! node)\<lparr>child_nodes := AList.update a (length h) (child_nodes (h ! node)),
                           untried_actions := remove1 a (untried_actions (h ! node))\<rparr>]"

section \<open>Scores\<close>

text \<open>The ratio that the closing loop of \<open>think\<close> compares.\<close>

definition win_rate :: "'a heap \<Rightarrow> nat \<Rightarrow> real" where
  "win_rate h c = real (wins (h ! c)) / real (visits (h ! c))"

text \<open>
  The score of child \<open>c\<close> of \<open>node\<close> as the specification writes it:
  \<open>wins / visits + C * sqrt (ln (parent visits) / visits)\<close> with \<open>C = 2\<close>.
\<close>

definition UCT :: "'a heap \<Rightarrow> nat \<Rightarrow> nat \<Rightarrow> real" where
  "UCT h node c =
     real (wins (h ! c)) / real (visits (h ! c))
       + 2 * sqrt (ln (real (visits (h ! node))) / real (visits (h ! c)))"

text \<open>A store that holds only a root, with nothing to try and no children.\<close>

definition bare_root :: "'a heap \<Rightarrow> bool" where
  "bare_root h =
     (length h = 1 \<and> parent (h ! 0) = None \<and> untried_actions (h ! 0) = [] \<and>
      child_nodes (h ! 0) = [])"

section \<open>More small trees\<close>

text \<open>
  The tree after one iteration from one token with identity 1 to move, and after two
  iterations from two tokens.
\<close>

definition tree_nim1 :: "nat heap" where
  "tree_nim1 =
     [\<lparr>parent = None, parent_action = None, child_nodes = [(1, 1)],
       untried_actions = [], wins = 1, visits = 1\<rparr>,
      \<lparr>parent = Some 0, parent_action = Some 1, child_nodes = [],
       untried_actions = [], wins = 1, visits = 1\<rparr>]"

definition tree_nim2 :: "nat heap" where
  "tree_nim2 =
     [\<lparr>parent = None, parent_action = None, child_nodes = [(1, 1), (2, 2)],
       untried_actions = [], wins = 2, visits = 2\<rparr>,
      \<lparr>parent = Some 0, parent_action = Some 1, child_nodes = [],
       untried_actions = [1], wins = 1, visits = 1\<rparr>,
      \<lparr>parent = Some 0, parent_action = Some 2, child_nodes = [],
       untried_actions = [], wins = 1, visits = 1\<rparr>]"

text \<open>A root whose only child has been visited once and never won.\<close>

definition tree_lost :: "nat heap" where
  "tree_lost =
     [\<lparr>parent = None, parent_action = None, child_nodes = [(1, 1)],
       untried_actions = [], wins = 0, visits = 1\<rparr>,
      \<lparr>parent = Some 0, parent_action = Some 1, child_nodes = [],
       untried_actions = [], wins = 0, visits = 1\<rparr>]"

text \<open>The root built for the ended state with no token left.\<close>

definition bare_ended :: "nat heap" where
  "bare_ended = root_tree nim (0, 1)"

section \<open>A board with one action\<close>


text \<open>
  The tree that the driver has built on this board after \<open>k\<close> iterations from state 0:
  a chain of \<open>k + 1\<close> nodes, each the only child of the one before, the last one with
  its action untried; every iteration has gone through the root and through all nodes
  that were there.
\<close>

definition line_node :: "nat \<Rightarrow> nat \<Rightarrow> nat node" where
  "line_node k i =
     \<lparr>parent = (if i = 0 then None else Some (i - 1)),
      parent_action = (if i = 0 then None else Some 0),
      child_nodes = (if i < k then [(0, Suc i)] else []),
      untried_actions = (if i < k then [] else [0]),
      wins = (if i = 0 then k else Suc k - i),
      visits = (if i = 0 then k else Suc k - i)\<rparr>"

definition line_tree :: "nat \<Rightarrow> nat heap" where
  "line_tree k = map (line_node k) [0..<Suc k]"


section \<open>Backpropagation: what it changes\<close>

lemma on_chain_le:
  "on_chain h n m \<Longrightarrow> parents_below h \<Longrightarrow> n < length h \<Longrightarrow> m \<le> n"
proof (induction rule: on_chain.induct)
  case (start n)
  then show ?case by simp
next
  case (step n p m)
  from step.prems step.hyps(1) have "p < n" by (auto simp: parents_below_def)
  with step show ?case by auto
qed

lemma on_chain_parent_eq:
  assumes "\<And>i. parent (h' ! i) = parent (h ! i)"
  shows "on_chain h' n m = on_chain h n m"
proof
  show "on_chain h' n m \<Longrightarrow> on_chain h n m"
    by (induction rule: on_chain.induct) (auto intro: on_chain.intros simp: assms)
  show "on_chain h n m \<Longrightarrow> on_chain h' n m"
    by (induction rule: on_chain.induct) (auto intro: on_chain.intros simp: assms[symmetric])
qed

lemma on_chain_root: "parent (h ! n) = None \<Longrightarrow> on_chain h n m = (m = n)"
  by (auto elim: on_chain.cases intro: on_chain.intros)

lemma on_chain_unfold:
  "parent (h ! n) = Some p \<Longrightarrow> on_chain h n m = (m = n \<or> on_chain h p m)"
  by (auto elim: on_chain.cases intro: on_chain.intros)

lemma backpropagate_unfold:
  "n < length h \<Longrightarrow>
   backpropagate h n won =
     (case parent (h ! n) of None \<Rightarrow> Some (h[n := bump won (h ! n)])
      | Some p \<Rightarrow> backpropagate (h[n := bump won (h ! n)]) p won)"
  by (subst backpropagate.simps) (simp add: bump_def Let_def split: option.split)

lemma bumped_length: "length (bumped h n won) = length h"
  by (simp add: bumped_def)

lemma bumped_nth:
  "i < length h \<Longrightarrow> bumped h n won ! i = (if on_chain h n i then bump won (h ! i) else h ! i)"
  by (simp add: bumped_def)

lemma backpropagate_bumped:
  "parents_below h \<Longrightarrow> n < length h \<Longrightarrow> backpropagate h n won = Some (bumped h n won)"
proof (induction n arbitrary: h rule: less_induct)
  case (less n)
  let ?h2 = "h[n := bump won (h ! n)]"
  have par: "\<And>i. parent (?h2 ! i) = parent (h ! i)"
  proof -
    fix i show "parent (?h2 ! i) = parent (h ! i)"
      using less.prems(2) by (cases "i = n") (simp_all add: bump_def)
  qed
  note unf = backpropagate_unfold[OF less.prems(2), of won]
  show ?case
  proof (cases "parent (h ! n)")
    case None
    have "bumped h n won = ?h2"
    proof (rule nth_equalityI)
      show "length (bumped h n won) = length ?h2" by (simp add: bumped_length)
    next
      fix i assume "i < length (bumped h n won)"
      then have "i < length h" by (simp add: bumped_length)
      then show "bumped h n won ! i = ?h2 ! i"
        by (simp add: bumped_nth on_chain_root[OF None] nth_list_update)
    qed
    with None unf show ?thesis by simp
  next
    case (Some p)
    with less.prems have pn: "p < n" by (simp add: parents_below_def)
    have pb2: "parents_below ?h2"
      using less.prems(1) by (simp add: parents_below_def par)
    have pl: "p < length ?h2" using pn less.prems(2) by simp
    have ih: "backpropagate ?h2 p won = Some (bumped ?h2 p won)"
      by (rule less.IH[OF pn pb2 pl])
    have notn: "\<not> on_chain h p n"
      using on_chain_le[of h p n] less.prems pn by auto
    have "bumped ?h2 p won = bumped h n won"
    proof (rule nth_equalityI)
      show "length (bumped ?h2 p won) = length (bumped h n won)" by (simp add: bumped_length)
    next
      fix i assume "i < length (bumped ?h2 p won)"
      then have il: "i < length h" by (simp add: bumped_length)
      have oc: "\<And>j. on_chain ?h2 p j = on_chain h p j"
        by (rule on_chain_parent_eq[OF par])
      show "bumped ?h2 p won ! i = bumped h n won ! i"
      proof (cases "i = n")
        case True
        with il notn show ?thesis
          by (simp add: bumped_nth oc on_chain_unfold[OF Some])
      next
        case False
        with il show ?thesis
          by (simp add: bumped_nth oc on_chain_unfold[OF Some])
      qed
    qed
    with ih Some unf show ?thesis by simp
  qed
qed


lemma on_chain_reaches_root:
  "parents_below h \<Longrightarrow> n < length h \<Longrightarrow> \<exists>r. on_chain h n r \<and> parent (h ! r) = None"
proof (induction n rule: less_induct)
  case (less n)
  show ?case
  proof (cases "parent (h ! n)")
    case None
    then show ?thesis by (auto intro: on_chain.start)
  next
    case (Some p)
    with less.prems have pn: "p < n" by (simp add: parents_below_def)
    with less.prems have "p < length h" by simp
    from less.IH[OF pn less.prems(1) this] obtain r
      where "on_chain h p r" "parent (h ! r) = None" by blast
    with Some show ?thesis by (auto intro: on_chain.step)
  qed
qed

section \<open>The invariants hold between iterations\<close>

lemma rollout_returns_input: "rollout brd state r = Some (Inr (state, r))"
  unfolding rollout_def
  by (subst rollout_loop.simps) (simp add: truth_of_method_def)

lemma on_chain_extend:
  "on_chain h n m \<Longrightarrow> parent (h ! m) = Some q \<Longrightarrow> on_chain h n q"
  by (induction rule: on_chain.induct) (auto intro: on_chain.intros)

lemma on_chain_to_root:
  "struct_inv h \<Longrightarrow> n < length h \<Longrightarrow> on_chain h n 0"
proof (induction n rule: less_induct)
  case (less n)
  show ?case
  proof (cases "n = 0")
    case True
    then show ?thesis by (simp add: on_chain.start)
  next
    case False
    with less.prems obtain p where p: "parent (h ! n) = Some p"
      by (auto simp: struct_inv_def)
    with less.prems have pn: "p < n" by (simp add: struct_inv_def parents_below_def)
    with less.prems have "p < length h" by simp
    from less.IH[OF pn less.prems(1) this] p show ?thesis by (rule on_chain.step[rotated])
  qed
qed

lemma bumped_fields:
  assumes "i < length h"
  shows "parent (bumped h n won ! i) = parent (h ! i)"
    and "parent_action (bumped h n won ! i) = parent_action (h ! i)"
    and "child_nodes (bumped h n won ! i) = child_nodes (h ! i)"
    and "untried_actions (bumped h n won ! i) = untried_actions (h ! i)"
  using assms by (simp_all add: bumped_nth bump_def)

lemma bumped_visits:
  "i < length h \<Longrightarrow>
   visits (bumped h n won ! i) = visits (h ! i) + (if on_chain h n i then 1 else 0)"
  by (simp add: bumped_nth bump_def)

lemma bumped_wins:
  "i < length h \<Longrightarrow>
   wins (bumped h n won ! i) = wins (h ! i) + (if on_chain h n i \<and> won then 1 else 0)"
  by (simp add: bumped_nth bump_def)

lemma struct_inv_bumped:
  assumes "struct_inv h"
  shows "struct_inv (bumped h n won)"
proof -
  from assms have ne: "h \<noteq> []" and pb: "parents_below h"
    and root: "\<forall>i<length h. (parent (h ! i) = None) = (i = 0)"
    and ch: "\<forall>i<length h. \<forall>ac\<in>set (child_nodes (h ! i)).
         i < snd ac \<and> snd ac < length h \<and> parent (h ! snd ac) = Some i"
    by (simp_all add: struct_inv_def)
  have 1: "bumped h n won \<noteq> []" using ne by (simp add: bumped_def)
  have 2: "parents_below (bumped h n won)"
    using pb by (simp add: parents_below_def bumped_length bumped_fields)
  have 3: "\<forall>i<length (bumped h n won). (parent (bumped h n won ! i) = None) = (i = 0)"
    using root by (simp add: bumped_length bumped_fields)
  have 4: "\<forall>i<length (bumped h n won). \<forall>ac\<in>set (child_nodes (bumped h n won ! i)).
         i < snd ac \<and> snd ac < length (bumped h n won) \<and>
         parent (bumped h n won ! snd ac) = Some i"
  proof (intro allI impI ballI)
    fix i ac assume i: "i < length (bumped h n won)"
      and ac: "ac \<in> set (child_nodes (bumped h n won ! i))"
    from i have il: "i < length h" by (simp add: bumped_length)
    with ac have "ac \<in> set (child_nodes (h ! i))" by (simp add: bumped_fields)
    with ch il have "i < snd ac \<and> snd ac < length h \<and> parent (h ! snd ac) = Some i"
      by blast
    then show "i < snd ac \<and> snd ac < length (bumped h n won) \<and>
         parent (bumped h n won ! snd ac) = Some i"
      by (simp add: bumped_length bumped_fields)
  qed
  from 1 2 3 4 show ?thesis unfolding struct_inv_def by blast
qed

lemma count_inv_bumped:
  assumes "struct_inv h" and "count_inv h"
  shows "count_inv (bumped h n won)"
proof -
  from assms(1) have pb: "parents_below h" by (simp add: struct_inv_def)
  from assms(2) have wv: "\<forall>i<length h. wins (h ! i) \<le> visits (h ! i)"
    and pv: "\<forall>i<length h. \<forall>p. parent (h ! i) = Some p \<longrightarrow> visits (h ! i) \<le> visits (h ! p)"
    by (simp_all add: count_inv_def)
  have 1: "\<forall>i<length (bumped h n won). wins (bumped h n won ! i) \<le> visits (bumped h n won ! i)"
    using wv by (auto simp: bumped_length bumped_visits bumped_wins le_SucI)
  have 2: "\<forall>i<length (bumped h n won). \<forall>p. parent (bumped h n won ! i) = Some p \<longrightarrow>
      visits (bumped h n won ! i) \<le> visits (bumped h n won ! p)"
  proof (intro allI impI)
    fix i p assume i: "i < length (bumped h n won)"
      and p: "parent (bumped h n won ! i) = Some p"
    from i have il: "i < length h" by (simp add: bumped_length)
    with p have par: "parent (h ! i) = Some p" by (simp add: bumped_fields)
    with pb il have "p < i" by (simp add: parents_below_def)
    with il have pl: "p < length h" by simp
    from pv il par have le: "visits (h ! i) \<le> visits (h ! p)" by blast
    have "on_chain h n i \<Longrightarrow> on_chain h n p" using par by (blast intro: on_chain_extend)
    with le show "visits (bumped h n won ! i) \<le> visits (bumped h n won ! p)"
      using il pl by (auto simp: bumped_visits)
  qed
  from 1 2 show ?thesis unfolding count_inv_def by blast
qed

lemma tree_inv_bumped:
  assumes "struct_inv h" and "count_inv h" and "visited_but h c" and "c < length h"
  shows "tree_inv (bumped h c won)"
proof -
  have "visited_but (bumped h c won) 0"
    unfolding visited_but_def
  proof (intro allI impI)
    fix i assume i: "i < length (bumped h c won)" and pos: "0 < i"
    from i have il: "i < length h" by (simp add: bumped_length)
    show "1 \<le> visits (bumped h c won ! i)"
    proof (cases "i = c")
      case True
      then show ?thesis using il by (simp add: bumped_visits on_chain.start)
    next
      case False
      with assms(3) il pos have "1 \<le> visits (h ! i)" by (simp add: visited_but_def)
      then show ?thesis using il by (simp add: bumped_visits)
    qed
  qed
  with struct_inv_bumped[OF assms(1)] count_inv_bumped[OF assms(1,2)]
  show ?thesis by (simp add: tree_inv_def)
qed

lemma root_visits_bumped:
  "struct_inv h \<Longrightarrow> c < length h \<Longrightarrow> visits (bumped h c won ! 0) = Suc (visits (h ! 0))"
  using on_chain_to_root[of h c] by (simp add: bumped_visits struct_inv_def)


lemma expand_leaf_expanded:
  assumes "node < length h" and "untried_actions (h ! node) \<noteq> []"
  shows "expand_leaf h node brd state r =
           (let a = untried_actions (h ! node) ! (r 0 mod length (untried_actions (h ! node)))
            in Inr (expanded h node a (legal_actions brd (next_state brd state a)),
                    length h, next_state brd state a, \<lambda>k. r (Suc k)))"
  using assms by (simp add: expand_leaf_def choice_def Let_def expanded_def nth_append)

lemma expanded_length: "length (expanded h node a acts) = Suc (length h)"
  by (simp add: expanded_def)

lemma expanded_nth_new:
  "node < length h \<Longrightarrow>
   expanded h node a acts ! length h = MCTSNode (Some node) (Some a) acts"
  by (simp add: expanded_def)

lemma expanded_nth_node:
  "node < length h \<Longrightarrow>
   expanded h node a acts ! node =
     (h ! node)\<lparr>child_nodes := AList.update a (length h) (child_nodes (h ! node)),
                untried_actions := remove1 a (untried_actions (h ! node))\<rparr>"
  by (simp add: expanded_def)

lemma expanded_nth_other:
  "i < length h \<Longrightarrow> i \<noteq> node \<Longrightarrow> expanded h node a acts ! i = h ! i"
  by (simp add: expanded_def nth_append)

lemma expanded_old_fields:
  assumes "node < length h" and "i < length h"
  shows "parent (expanded h node a acts ! i) = parent (h ! i)"
    and "visits (expanded h node a acts ! i) = visits (h ! i)"
    and "wins (expanded h node a acts ! i) = wins (h ! i)"
  using assms
  by (cases "i = node"; simp add: expanded_nth_node expanded_nth_other)+

lemma expanded_children:
  assumes "node < length h" and "i < length h"
  shows "set (child_nodes (expanded h node a acts ! i))
           \<subseteq> (if i = node then {(a, length h)} else {}) \<union> set (child_nodes (h ! i))"
proof (cases "i = node")
  case True
  have "set (AList.update a v al) \<subseteq> insert (a, v) (set al)" for v :: nat and al
    by (induction al) auto
  with True assms show ?thesis by (auto simp: expanded_nth_node)
next
  case False
  with assms show ?thesis by (simp add: expanded_nth_other)
qed

lemma struct_inv_expanded:
  assumes "struct_inv h" and nd: "node < length h"
  shows "struct_inv (expanded h node a acts)"
proof -
  let ?e = "expanded h node a acts"
  from assms have ne: "h \<noteq> []" and pb: "parents_below h"
    and root: "\<forall>i<length h. (parent (h ! i) = None) = (i = 0)"
    and ch: "\<forall>i<length h. \<forall>ac\<in>set (child_nodes (h ! i)).
         i < snd ac \<and> snd ac < length h \<and> parent (h ! snd ac) = Some i"
    by (simp_all add: struct_inv_def)
  have new: "parent (?e ! length h) = Some node" "child_nodes (?e ! length h) = []"
    using nd by (simp_all add: expanded_nth_new MCTSNode_def)
  have 1: "?e \<noteq> []" by (simp add: expanded_def)
  have 2: "parents_below ?e"
    unfolding parents_below_def
  proof (intro allI impI)
    fix i p assume i: "i < length ?e" and p: "parent (?e ! i) = Some p"
    show "p < i"
    proof (cases "i = length h")
      case True
      with p new nd show ?thesis by simp
    next
      case False
      with i have il: "i < length h" by (simp add: expanded_length)
      with p nd have "parent (h ! i) = Some p" by (simp add: expanded_old_fields)
      with pb il show ?thesis by (simp add: parents_below_def)
    qed
  qed
  have 3: "\<forall>i<length ?e. (parent (?e ! i) = None) = (i = 0)"
  proof (intro allI impI)
    fix i assume i: "i < length ?e"
    show "(parent (?e ! i) = None) = (i = 0)"
    proof (cases "i = length h")
      case True
      with new ne show ?thesis by simp
    next
      case False
      with i have il: "i < length h" by (simp add: expanded_length)
      with root nd show ?thesis by (simp add: expanded_old_fields)
    qed
  qed
  have 4: "\<forall>i<length ?e. \<forall>ac\<in>set (child_nodes (?e ! i)).
         i < snd ac \<and> snd ac < length ?e \<and> parent (?e ! snd ac) = Some i"
  proof (intro allI impI ballI)
    fix i ac assume i: "i < length ?e" and ac: "ac \<in> set (child_nodes (?e ! i))"
    show "i < snd ac \<and> snd ac < length ?e \<and> parent (?e ! snd ac) = Some i"
    proof (cases "i = length h")
      case True
      with ac new show ?thesis by simp
    next
      case False
      with i have il: "i < length h" by (simp add: expanded_length)
      from expanded_children[OF nd il, of a acts] ac
      have "(i = node \<and> ac = (a, length h)) \<or> ac \<in> set (child_nodes (h ! i))"
        by (auto split: if_splits)
      then show ?thesis
      proof
        assume "i = node \<and> ac = (a, length h)"
        with nd new show ?thesis by (simp add: expanded_length)
      next
        assume "ac \<in> set (child_nodes (h ! i))"
        with ch il have "i < snd ac \<and> snd ac < length h \<and> parent (h ! snd ac) = Some i"
          by blast
        with nd show ?thesis by (simp add: expanded_length expanded_old_fields)
      qed
    qed
  qed
  from 1 2 3 4 show ?thesis unfolding struct_inv_def by blast
qed

lemma count_inv_expanded:
  assumes "struct_inv h" and "count_inv h" and nd: "node < length h"
  shows "count_inv (expanded h node a acts)"
proof -
  let ?e = "expanded h node a acts"
  from assms(1) have pb: "parents_below h" by (simp add: struct_inv_def)
  from assms(2) have wv: "\<forall>i<length h. wins (h ! i) \<le> visits (h ! i)"
    and pv: "\<forall>i<length h. \<forall>p. parent (h ! i) = Some p \<longrightarrow> visits (h ! i) \<le> visits (h ! p)"
    by (simp_all add: count_inv_def)
  have new: "visits (?e ! length h) = 0" "wins (?e ! length h) = 0"
    using nd by (simp_all add: expanded_nth_new MCTSNode_def)
  have 1: "\<forall>i<length ?e. wins (?e ! i) \<le> visits (?e ! i)"
  proof (intro allI impI)
    fix i assume i: "i < length ?e"
    show "wins (?e ! i) \<le> visits (?e ! i)"
    proof (cases "i = length h")
      case True
      with new show ?thesis by simp
    next
      case False
      with i have il: "i < length h" by (simp add: expanded_length)
      with wv nd show ?thesis by (simp add: expanded_old_fields)
    qed
  qed
  have 2: "\<forall>i<length ?e. \<forall>p. parent (?e ! i) = Some p \<longrightarrow> visits (?e ! i) \<le> visits (?e ! p)"
  proof (intro allI impI)
    fix i p assume i: "i < length ?e" and p: "parent (?e ! i) = Some p"
    show "visits (?e ! i) \<le> visits (?e ! p)"
    proof (cases "i = length h")
      case True
      with new show ?thesis by simp
    next
      case False
      with i have il: "i < length h" by (simp add: expanded_length)
      with p nd have par: "parent (h ! i) = Some p" by (simp add: expanded_old_fields)
      with pb il have "p < i" by (simp add: parents_below_def)
      with il have pl: "p < length h" by simp
      from pv il par have "visits (h ! i) \<le> visits (h ! p)" by blast
      with il pl nd show ?thesis by (simp add: expanded_old_fields)
    qed
  qed
  from 1 2 show ?thesis unfolding count_inv_def by blast
qed

lemma visited_but_expanded:
  assumes "visited_but h 0" and nd: "node < length h"
  shows "visited_but (expanded h node a acts) (length h)"
  unfolding visited_but_def
proof (intro allI impI)
  fix i assume "i < length (expanded h node a acts)" "0 < i" "i \<noteq> length h"
  then have il: "i < length h" and pos: "0 < i" by (simp_all add: expanded_length)
  with assms(1) have "1 \<le> visits (h ! i)" by (simp add: visited_but_def)
  with il nd show "1 \<le> visits (expanded h node a acts ! i)"
    by (simp add: expanded_old_fields)
qed

lemma explore_visited:
  "1 \<le> n \<Longrightarrow> 1 \<le> t \<Longrightarrow>
   explore w n t c = Inr (real w / real n + c * sqrt (ln (real t) / real n))"
  by (simp add: explore_def)

lemma traverse_loop_visited:
  assumes "\<forall>ac\<in>set cs. 1 \<le> visits (h ! snd ac)" and "1 \<le> visits (h ! n) \<or> cs = []"
  shows "\<exists>b' m'. traverse_loop h n cs (b, m) = Inr (b', m') \<and>
           (b' = b \<and> m' = m \<or> b < b' \<and> m' \<in> snd ` set cs)"
  using assms
proof (induction cs arbitrary: b m)
  case Nil
  then show ?case by simp
next
  case (Cons ac cs)
  obtain a c where ac: "ac = (a, c)" by (cases ac)
  from Cons.prems ac have vc: "1 \<le> visits (h ! c)" and vn: "1 \<le> visits (h ! n)"
    by simp_all
  from explore_visited[OF vc vn] obtain v where
    v: "explore (wins (h ! c)) (visits (h ! c)) (visits (h ! n)) explore_faction = Inr v"
    by blast
  from Cons.prems have rest: "\<forall>ac\<in>set cs. 1 \<le> visits (h ! snd ac)" by simp
  show ?case
  proof (cases "v > b")
    case True
    from Cons.IH[OF rest, of v c] vn obtain b' m' where
      "traverse_loop h n cs (v, c) = Inr (b', m')"
      "b' = v \<and> m' = c \<or> v < b' \<and> m' \<in> snd ` set cs" by blast
    with True v ac show ?thesis by auto
  next
    case False
    from Cons.IH[OF rest, of b m] vn obtain b' m' where
      "traverse_loop h n cs (b, m) = Inr (b', m')"
      "b' = b \<and> m' = m \<or> b < b' \<and> m' \<in> snd ` set cs" by blast
    with False v ac show ?thesis by auto
  qed
qed

lemma tree_inv_children:
  assumes "tree_inv h" and "n < length h" and "ac \<in> set (child_nodes (h ! n))"
  shows "n < snd ac" and "snd ac < length h" and "parent (h ! snd ac) = Some n"
    and "1 \<le> visits (h ! snd ac)" and "visits (h ! snd ac) \<le> visits (h ! n)"
proof -
  from assms show 1: "n < snd ac" and 2: "snd ac < length h"
    and 3: "parent (h ! snd ac) = Some n"
    by (auto simp: tree_inv_def struct_inv_def)
  from assms(1) 1 2 show "1 \<le> visits (h ! snd ac)"
    by (simp add: tree_inv_def visited_but_def)
  from assms(1) 2 3 show "visits (h ! snd ac) \<le> visits (h ! n)"
    by (simp add: tree_inv_def count_inv_def)
qed

lemma traverse_loop_tree:
  assumes "tree_inv h" and "n < length h"
  shows "\<exists>b' m'. traverse_loop h n (child_nodes (h ! n)) (0, n) = Inr (b', m') \<and>
           (b' = 0 \<and> m' = n \<or> 0 < b' \<and> n < m' \<and> m' < length h)"
proof -
  have 1: "\<forall>ac\<in>set (child_nodes (h ! n)). 1 \<le> visits (h ! snd ac)"
    using tree_inv_children(4)[OF assms] by blast
  have 2: "1 \<le> visits (h ! n) \<or> child_nodes (h ! n) = []"
  proof (cases "child_nodes (h ! n)")
    case Nil
    then show ?thesis by simp
  next
    case (Cons ac cs)
    then have "ac \<in> set (child_nodes (h ! n))" by simp
    from tree_inv_children(4,5)[OF assms this] show ?thesis by simp
  qed
  from traverse_loop_visited[OF 1 2, of 0 n] obtain b' m' where
    r: "traverse_loop h n (child_nodes (h ! n)) (0, n) = Inr (b', m')"
    and d: "b' = 0 \<and> m' = n \<or> 0 < b' \<and> m' \<in> snd ` set (child_nodes (h ! n))" by blast
  from d have "b' = 0 \<and> m' = n \<or> 0 < b' \<and> n < m' \<and> m' < length h"
    using tree_inv_children(1,2)[OF assms] by auto
  with r show ?thesis by blast
qed

lemma traverse_nodes_tree:
  "tree_inv h \<Longrightarrow> n < length h \<Longrightarrow>
   \<exists>leaf<length h. traverse_nodes h n brd state identity = Some (Inr leaf)"
proof (induction "length h - n" arbitrary: n rule: less_induct)
  case less
  show ?case
  proof (cases "untried_actions (h ! n) = []")
    case False
    then have "traverse_nodes h n brd state identity = Some (Inr n)"
      by (subst traverse_nodes.simps) simp
    with less.prems show ?thesis by blast
  next
    case True
    from traverse_loop_tree[OF less.prems] obtain b' m' where
      r: "traverse_loop h n (child_nodes (h ! n)) (0, n) = Inr (b', m')"
      and d: "b' = 0 \<and> m' = n \<or> 0 < b' \<and> n < m' \<and> m' < length h" by blast
    show ?thesis
    proof (cases "b' = 0")
      case z: True
      with d have "m' = n" by simp
      with True r z have "traverse_nodes h n brd state identity = Some (Inr n)"
        by (subst traverse_nodes.simps) simp
      with less.prems show ?thesis by blast
    next
      case nz: False
      with d have m: "n < m'" "m' < length h" by simp_all
      then have "length h - m' < length h - n" by simp
      from less.hyps[OF this less.prems(1) m(2)] obtain leaf where
        "leaf < length h" "traverse_nodes h m' brd state identity = Some (Inr leaf)" by blast
      moreover from True r nz
      have "traverse_nodes h n brd state identity = traverse_nodes h m' brd state identity"
        by (subst traverse_nodes.simps) simp
      ultimately show ?thesis by auto
    qed
  qed
qed

lemma expand_leaf_tree:
  assumes inv: "tree_inv h" and leaf: "leaf < length h"
    and untried: "untried_actions (h ! leaf) \<noteq> []"
  shows "\<exists>e s' r'. expand_leaf h leaf brd state r = Inr (e, length h, s', r') \<and>
           struct_inv e \<and> count_inv e \<and> visited_but e (length h) \<and>
           length h < length e \<and> visits (e ! 0) = visits (h ! 0)"
proof -
  from inv have si: "struct_inv h" and ci: "count_inv h" and vi: "visited_but h 0"
    by (simp_all add: tree_inv_def)
  from leaf have l0: "0 < length h" by auto
  let ?a = "untried_actions (h ! leaf) ! (r 0 mod length (untried_actions (h ! leaf)))"
  let ?acts = "legal_actions brd (next_state brd state ?a)"
  have 1: "expand_leaf h leaf brd state r =
      Inr (expanded h leaf ?a ?acts, length h, next_state brd state ?a, \<lambda>k. r (Suc k))"
    using expand_leaf_expanded[OF leaf untried, of brd state r] by (simp add: Let_def)
  have 2: "struct_inv (expanded h leaf ?a ?acts)" by (rule struct_inv_expanded[OF si leaf])
  have 3: "count_inv (expanded h leaf ?a ?acts)" by (rule count_inv_expanded[OF si ci leaf])
  have 4: "visited_but (expanded h leaf ?a ?acts) (length h)"
    by (rule visited_but_expanded[OF vi leaf])
  have 5: "length h < length (expanded h leaf ?a ?acts)" by (simp add: expanded_length)
  have 6: "visits (expanded h leaf ?a ?acts ! 0) = visits (h ! 0)"
    by (rule expanded_old_fields(2)[OF leaf l0])
  from 1 2 3 4 5 6 show ?thesis by blast
qed

lemma mcts_step_unfold_expand:
  assumes tr: "traverse_nodes h 0 brd state identity = Some (Inr leaf)"
    and untried: "untried_actions (h ! leaf) \<noteq> []"
    and ex: "expand_leaf h leaf brd state r = Inr (e, c, s', r')"
    and bp: "backpropagate e c (current_player brd s' \<noteq> identity) = Some hb"
  shows "mcts_step brd state identity (h, r) = Some (Inr (hb, r'))"
  using tr untried ex bp by (simp add: mcts_step_def rollout_returns_input)

lemma mcts_step_unfold_keep:
  assumes tr: "traverse_nodes h 0 brd state identity = Some (Inr leaf)"
    and untried: "untried_actions (h ! leaf) = []"
    and bp: "backpropagate h 0 (current_player brd state \<noteq> identity) = Some hb"
  shows "mcts_step brd state identity (h, r) = Some (Inr (hb, r))"
  using tr untried bp by (simp add: mcts_step_def rollout_returns_input)

lemma mcts_step_tree:
  assumes inv: "tree_inv h"
  shows "\<exists>h' r'. mcts_step brd state identity (h, r) = Some (Inr (h', r')) \<and>
           tree_inv h' \<and> visits (h' ! 0) = Suc (visits (h ! 0))"
proof -
  from inv have si: "struct_inv h" and ci: "count_inv h" and vi: "visited_but h 0"
    by (simp_all add: tree_inv_def)
  from si have l0: "0 < length h" by (simp add: struct_inv_def)
  from traverse_nodes_tree[OF inv l0, of brd state identity] obtain leaf where
    leaf: "leaf < length h" and
    tr: "traverse_nodes h 0 brd state identity = Some (Inr leaf)" by (elim exE conjE)
  show ?thesis
  proof (cases "untried_actions (h ! leaf) = []")
    case True
    from si have pb: "parents_below h" by (simp add: struct_inv_def)
    let ?won = "current_player brd state \<noteq> identity"
    have bp: "backpropagate h 0 ?won = Some (bumped h 0 ?won)"
      by (rule backpropagate_bumped[OF pb l0])
    from mcts_step_unfold_keep[OF tr True bp]
      tree_inv_bumped[OF si ci vi l0, of ?won] root_visits_bumped[OF si l0, of ?won]
    show ?thesis by blast
  next
    case False
    from expand_leaf_tree[OF inv leaf False, of brd state r] obtain e s' r' where
      ex: "expand_leaf h leaf brd state r = Inr (e, length h, s', r')"
      and se: "struct_inv e" and ce: "count_inv e" and ve: "visited_but e (length h)"
      and le: "length h < length e" and v0: "visits (e ! 0) = visits (h ! 0)"
      by (elim exE conjE)
    let ?won = "current_player brd s' \<noteq> identity"
    from se have pb: "parents_below e" by (simp add: struct_inv_def)
    have bp: "backpropagate e (length h) ?won = Some (bumped e (length h) ?won)"
      by (rule backpropagate_bumped[OF pb le])
    have "visits (bumped e (length h) ?won ! 0) = Suc (visits (h ! 0))"
      using root_visits_bumped[OF se le, of ?won] v0 by simp
    with mcts_step_unfold_expand[OF tr False ex bp] tree_inv_bumped[OF se ce ve le, of ?won]
    show ?thesis by blast
  qed
qed

lemma think_loop_tree:
  "tree_inv h \<Longrightarrow>
   \<exists>h' r'. think_loop k brd state identity (h, r) = Some (Inr (h', r')) \<and>
     tree_inv h' \<and> visits (h' ! 0) = visits (h ! 0) + k"
proof (induction k arbitrary: h r)
  case 0
  then show ?case by simp
next
  case (Suc k)
  from mcts_step_tree[OF Suc.prems, of brd state identity r] obtain h1 r1 where
    st: "mcts_step brd state identity (h, r) = Some (Inr (h1, r1))"
    and inv: "tree_inv h1" and v: "visits (h1 ! 0) = Suc (visits (h ! 0))" by blast
  from Suc.IH[OF inv, of r1] obtain h' r' where
    "think_loop k brd state identity (h1, r1) = Some (Inr (h', r'))"
    "tree_inv h'" "visits (h' ! 0) = visits (h1 ! 0) + k" by blast
  with st v show ?case by simp
qed

lemma tree_inv_root_tree: "tree_inv (root_tree brd state)"
  by (simp add: tree_inv_def struct_inv_def count_inv_def visited_but_def parents_below_def
      root_tree_def MCTSNode_def)

section \<open>Simulation: the state returned\<close>

text \<open>
  The rollout of the time-budget file returns only states that the board reports as
  ended, or raises \<open>IndexError\<close> at a state without legal actions that has not ended;
  it need not return at all.
\<close>

lemma rollout_vanilla_ended:
  assumes "rollout_vanilla brd state r = Some res"
  shows "case res of Inl e \<Rightarrow> e = IndexError | Inr sr \<Rightarrow> is_ended brd (fst sr)"
proof (rule rollout_vanilla.raw_induct[where
      P = "\<lambda>brd state r res. case res of Inl e \<Rightarrow> e = IndexError
                                | Inr sr \<Rightarrow> is_ended brd (fst sr)", OF _ assms])
  fix f :: "('a, 'b) board \<Rightarrow> 'a \<Rightarrow> rng \<Rightarrow> (error + 'a \<times> rng) option"
    and brd state r res
  assume ih: "\<And>brd state r y. f brd state r = Some y \<Longrightarrow>
      (case y of Inl e \<Rightarrow> e = IndexError | Inr sr \<Rightarrow> is_ended brd (fst sr))"
    and body: "(if \<not> is_ended brd state
         then case choice r (legal_actions brd state) of Inl e \<Rightarrow> Some (Inl e)
              | Inr ar \<Rightarrow> f brd (next_state brd state (fst ar)) (snd ar)
         else Some (Inr (state, r))) = Some res"
  show "case res of Inl e \<Rightarrow> e = IndexError | Inr sr \<Rightarrow> is_ended brd (fst sr)"
  proof (cases "is_ended brd state")
    case True
    with body show ?thesis by auto
  next
    case False
    show ?thesis
    proof (cases "choice r (legal_actions brd state)")
      case (Inl e)
      with False body show ?thesis by (auto simp: choice_def split: if_splits)
    next
      case (Inr ar)
      with False body
      have "f brd (next_state brd state (fst ar)) (snd ar) = Some res" by simp
      then show ?thesis by (rule ih)
    qed
  qed
qed

text \<open>
  Claim C1. Both rollouts should return a state that the board reports as ended. The
  rollout of the iteration-count file returns the state it was given, whatever that state
  is: at one token with identity 2 to move, the state that the driver samples in its
  first iteration from two tokens and that has not ended, it returns that same state.
\<close>

theorem rollout_returns_unended_state:
  "\<not> is_ended nim (1, 2) \<and> rollout nim (1, 2) rng0 = Some (Inr ((1, 2), rng0))"
  by (simp add: rollout_returns_input) (simp add: nim_def)

section \<open>The two loops over children\<close>

lemma best_action_loop_split:
  assumes "\<forall>ac\<in>set cs. 0 < visits (h ! snd ac)"
  shows "\<exists>act best. best_action_loop h cs (act0, best0) = Inr (act, best) \<and>
     (act = act0 \<and> best = best0 \<and> (\<forall>x\<in>set cs. win_rate h (snd x) < best0) \<or>
      (\<exists>xs ac ys. cs = xs @ ac # ys \<and> act = parent_action (h ! snd ac) \<and>
         best = win_rate h (snd ac) \<and> best0 \<le> best \<and>
         (\<forall>x\<in>set xs. win_rate h (snd x) \<le> best) \<and>
         (\<forall>y\<in>set ys. win_rate h (snd y) < best)))"
  using assms
proof (induction cs arbitrary: act0 best0)
  case Nil
  then show ?case by simp
next
  case (Cons p cs)
  obtain a c where p: "p = (a, c)" by (cases p)
  let ?v = "win_rate h c"
  from Cons.prems p have vc: "visits (h ! c) \<noteq> 0" by simp
  from Cons.prems have rest: "\<forall>ac\<in>set cs. 0 < visits (h ! snd ac)" by simp
  show ?case
  proof (cases "?v \<ge> best0")
    case True
    have step: "best_action_loop h (p # cs) (act0, best0) =
                best_action_loop h cs (parent_action (h ! c), ?v)"
      using True vc p by (simp add: win_rate_def Let_def)
    from Cons.IH[OF rest, of "parent_action (h ! c)" ?v] obtain act best where
      r: "best_action_loop h cs (parent_action (h ! c), ?v) = Inr (act, best)" and
      d: "act = parent_action (h ! c) \<and> best = ?v \<and> (\<forall>x\<in>set cs. win_rate h (snd x) < ?v) \<or>
      (\<exists>xs ac ys. cs = xs @ ac # ys \<and> act = parent_action (h ! snd ac) \<and>
         best = win_rate h (snd ac) \<and> ?v \<le> best \<and>
         (\<forall>x\<in>set xs. win_rate h (snd x) \<le> best) \<and>
         (\<forall>y\<in>set ys. win_rate h (snd y) < best))" by blast
    from d have "\<exists>xs ac ys. p # cs = xs @ ac # ys \<and> act = parent_action (h ! snd ac) \<and>
         best = win_rate h (snd ac) \<and> best0 \<le> best \<and>
         (\<forall>x\<in>set xs. win_rate h (snd x) \<le> best) \<and>
         (\<forall>y\<in>set ys. win_rate h (snd y) < best)"
    proof
      assume u: "act = parent_action (h ! c) \<and> best = ?v \<and>
        (\<forall>x\<in>set cs. win_rate h (snd x) < ?v)"
      have "p # cs = [] @ p # cs" by simp
      with u True p show ?thesis by (intro exI[of _ "[]"] exI[of _ p] exI[of _ cs]) simp
    next
      assume "\<exists>xs ac ys. cs = xs @ ac # ys \<and> act = parent_action (h ! snd ac) \<and>
         best = win_rate h (snd ac) \<and> ?v \<le> best \<and>
         (\<forall>x\<in>set xs. win_rate h (snd x) \<le> best) \<and>
         (\<forall>y\<in>set ys. win_rate h (snd y) < best)"
      then obtain xs ac ys where s: "cs = xs @ ac # ys" "act = parent_action (h ! snd ac)"
         "best = win_rate h (snd ac)" "?v \<le> best"
         "\<forall>x\<in>set xs. win_rate h (snd x) \<le> best"
         "\<forall>y\<in>set ys. win_rate h (snd y) < best" by blast
      with True p show ?thesis
        by (intro exI[of _ "p # xs"] exI[of _ ac] exI[of _ ys]) simp
    qed
    with step r show ?thesis by simp
  next
    case False
    have step: "best_action_loop h (p # cs) (act0, best0) =
                best_action_loop h cs (act0, best0)"
      using False vc p by (simp add: win_rate_def Let_def)
    from Cons.IH[OF rest, of act0 best0] obtain act best where
      r: "best_action_loop h cs (act0, best0) = Inr (act, best)" and
      d: "act = act0 \<and> best = best0 \<and> (\<forall>x\<in>set cs. win_rate h (snd x) < best0) \<or>
      (\<exists>xs ac ys. cs = xs @ ac # ys \<and> act = parent_action (h ! snd ac) \<and>
         best = win_rate h (snd ac) \<and> best0 \<le> best \<and>
         (\<forall>x\<in>set xs. win_rate h (snd x) \<le> best) \<and>
         (\<forall>y\<in>set ys. win_rate h (snd y) < best))" by blast
    from d have "act = act0 \<and> best = best0 \<and>
        (\<forall>x\<in>set (p # cs). win_rate h (snd x) < best0) \<or>
      (\<exists>xs ac ys. p # cs = xs @ ac # ys \<and> act = parent_action (h ! snd ac) \<and>
         best = win_rate h (snd ac) \<and> best0 \<le> best \<and>
         (\<forall>x\<in>set xs. win_rate h (snd x) \<le> best) \<and>
         (\<forall>y\<in>set ys. win_rate h (snd y) < best))"
    proof
      assume "act = act0 \<and> best = best0 \<and> (\<forall>x\<in>set cs. win_rate h (snd x) < best0)"
      with False p show ?thesis by simp
    next
      assume "\<exists>xs ac ys. cs = xs @ ac # ys \<and> act = parent_action (h ! snd ac) \<and>
         best = win_rate h (snd ac) \<and> best0 \<le> best \<and>
         (\<forall>x\<in>set xs. win_rate h (snd x) \<le> best) \<and>
         (\<forall>y\<in>set ys. win_rate h (snd y) < best)"
      then obtain xs ac ys where s: "cs = xs @ ac # ys" "act = parent_action (h ! snd ac)"
         "best = win_rate h (snd ac)" "best0 \<le> best"
         "\<forall>x\<in>set xs. win_rate h (snd x) \<le> best"
         "\<forall>y\<in>set ys. win_rate h (snd y) < best" by blast
      with False p have "p # cs = (p # xs) @ ac # ys \<and> act = parent_action (h ! snd ac) \<and>
         best = win_rate h (snd ac) \<and> best0 \<le> best \<and>
         (\<forall>x\<in>set (p # xs). win_rate h (snd x) \<le> best) \<and>
         (\<forall>y\<in>set ys. win_rate h (snd y) < best)" by simp
      then show ?thesis by blast
    qed
    with step r show ?thesis by simp
  qed
qed


lemma explore_UCT:
  "1 \<le> visits (h ! c) \<Longrightarrow> 1 \<le> visits (h ! node) \<Longrightarrow>
   explore (wins (h ! c)) (visits (h ! c)) (visits (h ! node)) explore_faction
     = Inr (UCT h node c)"
  by (simp add: explore_def UCT_def explore_faction_def)

lemma traverse_loop_split:
  assumes "\<forall>ac\<in>set cs. 1 \<le> visits (h ! snd ac)" and "1 \<le> visits (h ! n) \<or> cs = []"
  shows "\<exists>b m. traverse_loop h n cs (b0, m0) = Inr (b, m) \<and>
     (b = b0 \<and> m = m0 \<and> (\<forall>x\<in>set cs. UCT h n (snd x) \<le> b0) \<or>
      (\<exists>xs ac ys. cs = xs @ ac # ys \<and> m = snd ac \<and> b = UCT h n (snd ac) \<and> b0 < b \<and>
         (\<forall>x\<in>set xs. UCT h n (snd x) < b) \<and>
         (\<forall>y\<in>set ys. UCT h n (snd y) \<le> b)))"
  using assms
proof (induction cs arbitrary: b0 m0)
  case Nil
  then show ?case by simp
next
  case (Cons p cs)
  obtain a c where p: "p = (a, c)" by (cases p)
  let ?v = "UCT h n c"
  from Cons.prems p have vc: "1 \<le> visits (h ! c)" and vn: "1 \<le> visits (h ! n)"
    by simp_all
  note ex = explore_UCT[OF vc vn]
  from Cons.prems have rest: "\<forall>ac\<in>set cs. 1 \<le> visits (h ! snd ac)" by simp
  from vn have vn': "1 \<le> visits (h ! n) \<or> cs = []" by simp
  show ?case
  proof (cases "?v > b0")
    case True
    have step: "traverse_loop h n (p # cs) (b0, m0) = traverse_loop h n cs (?v, c)"
      using True ex p by simp
    from Cons.IH[OF rest vn', of ?v c] obtain b m where
      r: "traverse_loop h n cs (?v, c) = Inr (b, m)" and
      d: "b = ?v \<and> m = c \<and> (\<forall>x\<in>set cs. UCT h n (snd x) \<le> ?v) \<or>
      (\<exists>xs ac ys. cs = xs @ ac # ys \<and> m = snd ac \<and> b = UCT h n (snd ac) \<and> ?v < b \<and>
         (\<forall>x\<in>set xs. UCT h n (snd x) < b) \<and>
         (\<forall>y\<in>set ys. UCT h n (snd y) \<le> b))" by blast
    from d have "\<exists>xs ac ys. p # cs = xs @ ac # ys \<and> m = snd ac \<and> b = UCT h n (snd ac) \<and>
         b0 < b \<and> (\<forall>x\<in>set xs. UCT h n (snd x) < b) \<and>
         (\<forall>y\<in>set ys. UCT h n (snd y) \<le> b)"
    proof
      assume "b = ?v \<and> m = c \<and> (\<forall>x\<in>set cs. UCT h n (snd x) \<le> ?v)"
      with True p show ?thesis by (intro exI[of _ "[]"] exI[of _ p] exI[of _ cs]) simp
    next
      assume "\<exists>xs ac ys. cs = xs @ ac # ys \<and> m = snd ac \<and> b = UCT h n (snd ac) \<and> ?v < b \<and>
         (\<forall>x\<in>set xs. UCT h n (snd x) < b) \<and>
         (\<forall>y\<in>set ys. UCT h n (snd y) \<le> b)"
      then obtain xs ac ys where "cs = xs @ ac # ys" "m = snd ac" "b = UCT h n (snd ac)"
         "?v < b" "\<forall>x\<in>set xs. UCT h n (snd x) < b" "\<forall>y\<in>set ys. UCT h n (snd y) \<le> b"
        by blast
      with True p show ?thesis
        by (intro exI[of _ "p # xs"] exI[of _ ac] exI[of _ ys]) simp
    qed
    with step r show ?thesis by simp
  next
    case False
    have step: "traverse_loop h n (p # cs) (b0, m0) = traverse_loop h n cs (b0, m0)"
      using False ex p by simp
    from Cons.IH[OF rest vn', of b0 m0] obtain b m where
      r: "traverse_loop h n cs (b0, m0) = Inr (b, m)" and
      d: "b = b0 \<and> m = m0 \<and> (\<forall>x\<in>set cs. UCT h n (snd x) \<le> b0) \<or>
      (\<exists>xs ac ys. cs = xs @ ac # ys \<and> m = snd ac \<and> b = UCT h n (snd ac) \<and> b0 < b \<and>
         (\<forall>x\<in>set xs. UCT h n (snd x) < b) \<and>
         (\<forall>y\<in>set ys. UCT h n (snd y) \<le> b))" by blast
    from d have "b = b0 \<and> m = m0 \<and> (\<forall>x\<in>set (p # cs). UCT h n (snd x) \<le> b0) \<or>
      (\<exists>xs ac ys. p # cs = xs @ ac # ys \<and> m = snd ac \<and> b = UCT h n (snd ac) \<and> b0 < b \<and>
         (\<forall>x\<in>set xs. UCT h n (snd x) < b) \<and>
         (\<forall>y\<in>set ys. UCT h n (snd y) \<le> b))"
    proof
      assume "b = b0 \<and> m = m0 \<and> (\<forall>x\<in>set cs. UCT h n (snd x) \<le> b0)"
      with False p show ?thesis by simp
    next
      assume "\<exists>xs ac ys. cs = xs @ ac # ys \<and> m = snd ac \<and> b = UCT h n (snd ac) \<and> b0 < b \<and>
         (\<forall>x\<in>set xs. UCT h n (snd x) < b) \<and>
         (\<forall>y\<in>set ys. UCT h n (snd y) \<le> b)"
      then obtain xs ac ys where "cs = xs @ ac # ys" "m = snd ac" "b = UCT h n (snd ac)"
         "b0 < b" "\<forall>x\<in>set xs. UCT h n (snd x) < b" "\<forall>y\<in>set ys. UCT h n (snd y) \<le> b"
        by blast
      with False p have "p # cs = (p # xs) @ ac # ys \<and> m = snd ac \<and> b = UCT h n (snd ac) \<and>
         b0 < b \<and> (\<forall>x\<in>set (p # xs). UCT h n (snd x) < b) \<and>
         (\<forall>y\<in>set ys. UCT h n (snd y) \<le> b)" by simp
      then show ?thesis by blast
    qed
    with step r show ?thesis by simp
  qed
qed

section \<open>Runs of the take-away game\<close>

lemma run_nim1:
  "think_loop 1 nim (1, 1) 1 (root_tree nim (1, 1), rng0) = Some (Inr (tree_nim1, rng0))"
  by (simp add: mcts_step_def traverse_nodes.simps expand_leaf_def choice_def
      rollout_returns_input backpropagate.simps root_tree_def MCTSNode_def nim_def
      tree_nim1_def rng0_def Let_def)

lemma run_nim2:
  "think_loop 2 nim (2, 1) 1 (root_tree nim (2, 1), rng0) = Some (Inr (tree_nim2, rng0))"
  by (simp add: numeral_2_eq_2 mcts_step_def traverse_nodes.simps expand_leaf_def choice_def
      rollout_returns_input backpropagate.simps root_tree_def MCTSNode_def nim_def
      tree_nim2_def rng0_def Let_def)

section \<open>Selection: scores and descent\<close>

text \<open>
  Claim C5. A node with untried actions is returned at once. At a node without untried
  actions, whose children have all been visited, every child is scored with
  \<open>wins / visits + 2 * sqrt (ln (parent visits) / visits)\<close>. If no score is above 0 the
  node itself is returned. Otherwise selection goes on from the first child with the
  greatest score: every child before it scores strictly less, every child after it scores
  at most as much, and its score is above 0.
\<close>

theorem traverse_nodes_uct_descent:
  "(untried_actions (h ! node) \<noteq> [] \<longrightarrow>
      traverse_nodes h node brd state identity = Some (Inr node)) \<and>
   (untried_actions (h ! node) = [] \<and>
    (\<forall>ac\<in>set (child_nodes (h ! node)). 1 \<le> visits (h ! snd ac)) \<and>
    (1 \<le> visits (h ! node) \<or> child_nodes (h ! node) = []) \<longrightarrow>
      (\<forall>ac\<in>set (child_nodes (h ! node)).
         explore (wins (h ! snd ac)) (visits (h ! snd ac)) (visits (h ! node)) explore_faction
           = Inr (UCT h node (snd ac))) \<and>
      ((\<forall>ac\<in>set (child_nodes (h ! node)). UCT h node (snd ac) \<le> 0) \<longrightarrow>
         traverse_nodes h node brd state identity = Some (Inr node)) \<and>
      (\<not> (\<forall>ac\<in>set (child_nodes (h ! node)). UCT h node (snd ac) \<le> 0) \<longrightarrow>
         (\<exists>xs ac ys. child_nodes (h ! node) = xs @ ac # ys \<and>
            0 < UCT h node (snd ac) \<and>
            (\<forall>x\<in>set xs. UCT h node (snd x) < UCT h node (snd ac)) \<and>
            (\<forall>y\<in>set ys. UCT h node (snd y) \<le> UCT h node (snd ac)) \<and>
            traverse_nodes h node brd state identity
              = traverse_nodes h (snd ac) brd state identity)))"
proof (intro conjI impI)
  assume "untried_actions (h ! node) \<noteq> []"
  then show "traverse_nodes h node brd state identity = Some (Inr node)"
    by (subst traverse_nodes.simps) simp
next
  assume a: "untried_actions (h ! node) = [] \<and>
    (\<forall>ac\<in>set (child_nodes (h ! node)). 1 \<le> visits (h ! snd ac)) \<and>
    (1 \<le> visits (h ! node) \<or> child_nodes (h ! node) = [])"
  show "\<forall>ac\<in>set (child_nodes (h ! node)).
         explore (wins (h ! snd ac)) (visits (h ! snd ac)) (visits (h ! node)) explore_faction
           = Inr (UCT h node (snd ac))"
  proof
    fix ac assume ac: "ac \<in> set (child_nodes (h ! node))"
    with a have "1 \<le> visits (h ! snd ac)" by blast
    moreover from a ac have "1 \<le> visits (h ! node)" by auto
    ultimately show "explore (wins (h ! snd ac)) (visits (h ! snd ac)) (visits (h ! node))
        explore_faction = Inr (UCT h node (snd ac))" by (rule explore_UCT)
  qed
next
  assume a: "untried_actions (h ! node) = [] \<and>
    (\<forall>ac\<in>set (child_nodes (h ! node)). 1 \<le> visits (h ! snd ac)) \<and>
    (1 \<le> visits (h ! node) \<or> child_nodes (h ! node) = [])"
    and low: "\<forall>ac\<in>set (child_nodes (h ! node)). UCT h node (snd ac) \<le> 0"
  from a have a1: "\<forall>ac\<in>set (child_nodes (h ! node)). 1 \<le> visits (h ! snd ac)"
    and a2: "1 \<le> visits (h ! node) \<or> child_nodes (h ! node) = []" by blast+
  from traverse_loop_split[OF a1 a2, of 0 node] low obtain b m where
    "traverse_loop h node (child_nodes (h ! node)) (0, node) = Inr (b, m)"
    "b = 0 \<and> m = node" by fastforce
  with a show "traverse_nodes h node brd state identity = Some (Inr node)"
    by (subst traverse_nodes.simps) simp
next
  assume a: "untried_actions (h ! node) = [] \<and>
    (\<forall>ac\<in>set (child_nodes (h ! node)). 1 \<le> visits (h ! snd ac)) \<and>
    (1 \<le> visits (h ! node) \<or> child_nodes (h ! node) = [])"
    and high: "\<not> (\<forall>ac\<in>set (child_nodes (h ! node)). UCT h node (snd ac) \<le> 0)"
  from a have a1: "\<forall>ac\<in>set (child_nodes (h ! node)). 1 \<le> visits (h ! snd ac)"
    and a2: "1 \<le> visits (h ! node) \<or> child_nodes (h ! node) = []" by blast+
  from traverse_loop_split[OF a1 a2, of 0 node] high obtain b m xs ac ys where
    r: "traverse_loop h node (child_nodes (h ! node)) (0, node) = Inr (b, m)" and
    s: "child_nodes (h ! node) = xs @ ac # ys" "m = snd ac" "b = UCT h node (snd ac)" "0 < b"
      "\<forall>x\<in>set xs. UCT h node (snd x) < b" "\<forall>y\<in>set ys. UCT h node (snd y) \<le> b"
    by blast
  from a r s(2,4) have "traverse_nodes h node brd state identity
      = traverse_nodes h (snd ac) brd state identity"
    by (subst traverse_nodes.simps) simp
  with s show "\<exists>xs ac ys. child_nodes (h ! node) = xs @ ac # ys \<and>
            0 < UCT h node (snd ac) \<and>
            (\<forall>x\<in>set xs. UCT h node (snd x) < UCT h node (snd ac)) \<and>
            (\<forall>y\<in>set ys. UCT h node (snd y) \<le> UCT h node (snd ac)) \<and>
            traverse_nodes h node brd state identity
              = traverse_nodes h (snd ac) brd state identity"
    by blast
qed

text \<open>
  The three cases on trees of the take-away game: a root with an untried action, a root
  whose only child scores 0, and a root whose only child scores 1.
\<close>

theorem traverse_nodes_uct_descent_witness:
  "traverse_nodes (root_tree nim (1, 1)) 0 nim (1, 1) 1 = Some (Inr 0) \<and>
   traverse_nodes tree_lost 0 nim (1, 1) 1 = Some (Inr 0) \<and>
   traverse_nodes tree_nim1 0 nim (1, 1) 1 = traverse_nodes tree_nim1 1 nim (1, 1) 1 \<and>
   UCT tree_nim1 0 1 = 1 \<and> UCT tree_lost 0 1 = 0"
proof -
  have u1: "UCT tree_nim1 0 1 = 1" by (simp add: UCT_def tree_nim1_def)
  have u0: "UCT tree_lost 0 1 = 0" by (simp add: UCT_def tree_lost_def)
  have 1: "traverse_nodes (root_tree nim (1, 1)) 0 nim (1, 1) 1 = Some (Inr 0)"
    using traverse_nodes_uct_descent[of "root_tree nim (1, 1)" 0 nim "(1, 1)" 1]
    by (simp add: root_tree_def MCTSNode_def nim_def)
  have 2: "traverse_nodes tree_lost 0 nim (1, 1) 1 = Some (Inr 0)"
    using traverse_nodes_uct_descent[of tree_lost 0 nim "(1, 1)" 1] u0
    by (simp add: tree_lost_def)
  have "\<exists>xs ac ys. child_nodes (tree_nim1 ! 0) = xs @ ac # ys \<and>
       traverse_nodes tree_nim1 0 nim (1, 1) 1
         = traverse_nodes tree_nim1 (snd ac) nim (1, 1) 1"
    using traverse_nodes_uct_descent[of tree_nim1 0 nim "(1, 1)" 1] u1
    by (simp add: tree_nim1_def) blast
  then obtain xs ac ys where "[(1::nat, 1::nat)] = xs @ ac # ys"
    "traverse_nodes tree_nim1 0 nim (1, 1) 1 = traverse_nodes tree_nim1 (snd ac) nim (1, 1) 1"
    by (auto simp: tree_nim1_def)
  then have 3: "traverse_nodes tree_nim1 0 nim (1, 1) 1
      = traverse_nodes tree_nim1 1 nim (1, 1) 1"
    by (cases xs) auto
  from 1 2 3 u1 u0 show ?thesis by blast
qed

section \<open>The driver: budget and final choice\<close>

lemma think_loop_reaches_tree:
  assumes "think_loop n brd state identity (root_tree brd state, r) = Some (Inr (h, r'))"
  shows "tree_inv h" and "visits (h ! 0) = n"
proof -
  from think_loop_tree[OF tree_inv_root_tree, of n brd state identity brd state r]
  obtain h' r'' where
    "think_loop n brd state identity (root_tree brd state, r) = Some (Inr (h', r''))"
    "tree_inv h'" "visits (h' ! 0) = visits (root_tree brd state ! 0) + n"
    by (elim exE conjE)
  with assms show "tree_inv h" and "visits (h ! 0) = n"
    by (simp_all add: root_tree_def MCTSNode_def)
qed

lemma win_rate_nonneg: "0 \<le> win_rate h c"
  by (simp add: win_rate_def)

lemma best_action_loop_tree:
  assumes inv: "tree_inv h"
  shows "\<exists>act best. best_action_loop h (child_nodes (h ! 0)) (None, 0) = Inr (act, best) \<and>
     (child_nodes (h ! 0) \<noteq> [] \<longrightarrow>
       (\<exists>xs ac ys. child_nodes (h ! 0) = xs @ ac # ys \<and>
         act = parent_action (h ! snd ac) \<and>
         (\<forall>x\<in>set xs. win_rate h (snd x) \<le> win_rate h (snd ac)) \<and>
         (\<forall>y\<in>set ys. win_rate h (snd y) < win_rate h (snd ac))))"
proof -
  from inv have l0: "0 < length h" by (simp add: tree_inv_def struct_inv_def)
  have vis: "\<forall>ac\<in>set (child_nodes (h ! 0)). 0 < visits (h ! snd ac)"
    using tree_inv_children(4)[OF inv l0] by fastforce
  from best_action_loop_split[OF vis, of None 0] obtain act best where
    r: "best_action_loop h (child_nodes (h ! 0)) (None, 0) = Inr (act, best)" and
    d: "act = None \<and> best = 0 \<and> (\<forall>x\<in>set (child_nodes (h ! 0)). win_rate h (snd x) < 0) \<or>
      (\<exists>xs ac ys. child_nodes (h ! 0) = xs @ ac # ys \<and> act = parent_action (h ! snd ac) \<and>
         best = win_rate h (snd ac) \<and> 0 \<le> best \<and>
         (\<forall>x\<in>set xs. win_rate h (snd x) \<le> best) \<and>
         (\<forall>y\<in>set ys. win_rate h (snd y) < best))" by blast
  have "child_nodes (h ! 0) \<noteq> [] \<longrightarrow>
       (\<exists>xs ac ys. child_nodes (h ! 0) = xs @ ac # ys \<and>
         act = parent_action (h ! snd ac) \<and>
         (\<forall>x\<in>set xs. win_rate h (snd x) \<le> win_rate h (snd ac)) \<and>
         (\<forall>y\<in>set ys. win_rate h (snd y) < win_rate h (snd ac)))"
  proof
    assume ne: "child_nodes (h ! 0) \<noteq> []"
    then obtain x where "x \<in> set (child_nodes (h ! 0))" by (cases "child_nodes (h ! 0)") auto
    with win_rate_nonneg[of h "snd x"]
    have "\<not> (\<forall>x\<in>set (child_nodes (h ! 0)). win_rate h (snd x) < 0)" by force
    with d show "\<exists>xs ac ys. child_nodes (h ! 0) = xs @ ac # ys \<and>
         act = parent_action (h ! snd ac) \<and>
         (\<forall>x\<in>set xs. win_rate h (snd x) \<le> win_rate h (snd ac)) \<and>
         (\<forall>y\<in>set ys. win_rate h (snd y) < win_rate h (snd ac))" by blast
  qed
  with r show ?thesis by blast
qed

lemma think_n_unfold:
  assumes "think_loop n brd state (current_player brd state) (root_tree brd state, r)
             = Some (Inr (h, r'))"
    and "best_action_loop h (child_nodes (h ! 0)) (None, 0) = Inr (act, best)"
  shows "think_n n brd state r = Some (Inr act)"
  using assms by (simp add: think_n_def)

text \<open>
  Claim C8. When the iterations are over and the root has children, the driver returns the
  \<open>parent_action\<close> of a child of the root with the greatest ratio of wins to visits;
  among children with that ratio it is the last one in iteration order: every child
  before it has at most that ratio, every child after it strictly less.
\<close>

theorem think_returns_best_child:
  assumes "think_loop n brd state (current_player brd state) (root_tree brd state, r)
             = Some (Inr (h, r'))"
    and "child_nodes (h ! 0) \<noteq> []"
  shows "\<exists>xs ac ys. child_nodes (h ! 0) = xs @ ac # ys \<and>
           think_n n brd state r = Some (Inr (parent_action (h ! snd ac))) \<and>
           (\<forall>x\<in>set xs. win_rate h (snd x) \<le> win_rate h (snd ac)) \<and>
           (\<forall>y\<in>set ys. win_rate h (snd y) < win_rate h (snd ac))"
proof -
  have inv: "tree_inv h" by (rule think_loop_reaches_tree(1)[OF assms(1)])
  from best_action_loop_tree[OF inv] assms(2) obtain act best xs ac ys where
    r: "best_action_loop h (child_nodes (h ! 0)) (None, 0) = Inr (act, best)" and
    s: "child_nodes (h ! 0) = xs @ ac # ys" "act = parent_action (h ! snd ac)"
       "\<forall>x\<in>set xs. win_rate h (snd x) \<le> win_rate h (snd ac)"
       "\<forall>y\<in>set ys. win_rate h (snd y) < win_rate h (snd ac)" by blast
  from think_n_unfold[OF assms(1) r] s show ?thesis by blast
qed

lemma nim_start_player: "current_player nim (2, 1) = 1"
  by (simp add: nim_def)

text \<open>
  After two iterations from two tokens both children have ratio 1; the action of the
  second one is returned.
\<close>

theorem think_returns_best_child_witness:
  "think_loop 2 nim (2, 1) (current_player nim (2, 1)) (root_tree nim (2, 1), rng0)
     = Some (Inr (tree_nim2, rng0)) \<and>
   child_nodes (tree_nim2 ! 0) = [(1, 1), (2, 2)] \<and>
   win_rate tree_nim2 1 = win_rate tree_nim2 2 \<and>
   think_n 2 nim (2, 1) rng0 = Some (Inr (Some 2))"
proof -
  have run: "think_loop 2 nim (2, 1) (current_player nim (2, 1)) (root_tree nim (2, 1), rng0)
     = Some (Inr (tree_nim2, rng0))"
    unfolding nim_start_player by (rule run_nim2)
  have ch: "child_nodes (tree_nim2 ! 0) = [(1, 1), (2, 2)]" by (simp add: tree_nim2_def)
  have wr: "win_rate tree_nim2 1 = 1" "win_rate tree_nim2 2 = 1"
    by (simp_all add: win_rate_def tree_nim2_def)
  from ch have ne: "child_nodes (tree_nim2 ! 0) \<noteq> []" by simp
  from think_returns_best_child[OF run ne] obtain xs ac ys where
    s: "child_nodes (tree_nim2 ! 0) = xs @ ac # ys"
       "think_n 2 nim (2, 1) rng0 = Some (Inr (parent_action (tree_nim2 ! snd ac)))"
       "\<forall>y\<in>set ys. win_rate tree_nim2 (snd y) < win_rate tree_nim2 (snd ac)" by blast
  from s(1) ch have split: "[(1::nat, 1::nat), (2, 2)] = xs @ ac # ys" by simp
  have "ac = (2, 2)"
  proof (cases xs)
    case Nil
    with split have "ac = (1, 1)" "ys = [(2, 2)]" by simp_all
    with s(3) wr show ?thesis by simp
  next
    case (Cons x xs')
    with split have xs': "[(2::nat, 2::nat)] = xs' @ ac # ys" by simp
    then show ?thesis by (cases xs') simp_all
  qed
  with s(2) have "think_n 2 nim (2, 1) rng0 = Some (Inr (Some 2))"
    by (simp add: tree_nim2_def)
  with run ch wr show ?thesis by simp
qed

section \<open>The driver: counters, and a state without actions\<close>

text \<open>
  Claim C9. After any number of iterations, every node of the tree has at most as many
  wins as visits, and every node has at most as many visits as its parent, whether the
  parent is found through the node's \<open>parent\<close> or the node through the parent's
  \<open>child_nodes\<close>.
\<close>

theorem counters_ordered_after_iterations:
  "\<exists>h r'. think_loop n brd state identity (root_tree brd state, r) = Some (Inr (h, r')) \<and>
     (\<forall>i<length h.
        wins (h ! i) \<le> visits (h ! i) \<and>
        (\<forall>p. parent (h ! i) = Some p \<longrightarrow> p < length h \<and> visits (h ! i) \<le> visits (h ! p)) \<and>
        (\<forall>ac\<in>set (child_nodes (h ! i)).
           snd ac < length h \<and> visits (h ! snd ac) \<le> visits (h ! i)))"
proof -
  from think_loop_tree[OF tree_inv_root_tree, of n brd state identity brd state r]
  obtain h r' where
    run: "think_loop n brd state identity (root_tree brd state, r) = Some (Inr (h, r'))"
    and inv: "tree_inv h"
    by (elim exE conjE)
  have "\<forall>i<length h.
        wins (h ! i) \<le> visits (h ! i) \<and>
        (\<forall>p. parent (h ! i) = Some p \<longrightarrow> p < length h \<and> visits (h ! i) \<le> visits (h ! p)) \<and>
        (\<forall>ac\<in>set (child_nodes (h ! i)).
           snd ac < length h \<and> visits (h ! snd ac) \<le> visits (h ! i))"
  proof (intro allI impI conjI ballI)
    fix i assume i: "i < length h"
    with inv show "wins (h ! i) \<le> visits (h ! i)" by (simp add: tree_inv_def count_inv_def)
  next
    fix i p assume i: "i < length h" and p: "parent (h ! i) = Some p"
    with inv have "p < i" by (simp add: tree_inv_def struct_inv_def parents_below_def)
    with i show "p < length h" by simp
    from inv i p show "visits (h ! i) \<le> visits (h ! p)"
      by (simp add: tree_inv_def count_inv_def)
  next
    fix i ac assume i: "i < length h" and ac: "ac \<in> set (child_nodes (h ! i))"
    from tree_inv_children(2,5)[OF inv i ac]
    show "snd ac < length h" and "visits (h ! snd ac) \<le> visits (h ! i)" .
  qed
  with run show ?thesis by blast
qed

text \<open>The first child of the root after two iterations from two tokens.\<close>

theorem counters_ordered_after_iterations_witness:
  "think_loop 2 nim (2, 1) 1 (root_tree nim (2, 1), rng0) = Some (Inr (tree_nim2, rng0)) \<and>
   (1::nat) < length tree_nim2 \<and>
   wins (tree_nim2 ! 1) \<le> visits (tree_nim2 ! 1) \<and>
   parent (tree_nim2 ! 1) = Some 0 \<and>
   visits (tree_nim2 ! 1) \<le> visits (tree_nim2 ! 0)"
proof -
  from counters_ordered_after_iterations[of 2 nim "(2, 1)" 1 rng0] obtain h r' where
    run: "think_loop 2 nim (2, 1) 1 (root_tree nim (2, 1), rng0) = Some (Inr (h, r'))" and
    all: "\<forall>i<length h.
        wins (h ! i) \<le> visits (h ! i) \<and>
        (\<forall>p. parent (h ! i) = Some p \<longrightarrow> p < length h \<and> visits (h ! i) \<le> visits (h ! p)) \<and>
        (\<forall>ac\<in>set (child_nodes (h ! i)).
           snd ac < length h \<and> visits (h ! snd ac) \<le> visits (h ! i))" by blast
  from run run_nim2 have h: "h = tree_nim2" by simp
  have len: "(1::nat) < length tree_nim2" by (simp add: tree_nim2_def)
  have par: "parent (tree_nim2 ! 1) = Some 0" by (simp add: tree_nim2_def)
  from all h len have
    "wins (tree_nim2 ! 1) \<le> visits (tree_nim2 ! 1)" and
    "\<forall>p. parent (tree_nim2 ! 1) = Some p \<longrightarrow> visits (tree_nim2 ! 1) \<le> visits (tree_nim2 ! p)"
    by blast+
  with par len run_nim2 show ?thesis by blast
qed

text \<open>
  Claim C10. After any number of iterations, every node recorded as a child has been
  visited at least once, and so has the node that records it; scoring the child
  therefore yields a value, not a division by zero or a logarithm of zero, and the next
  selection from the root returns a node.
\<close>

theorem scored_children_visited:
  "\<exists>h r'. think_loop n brd state identity (root_tree brd state, r) = Some (Inr (h, r')) \<and>
     (\<forall>i<length h. \<forall>ac\<in>set (child_nodes (h ! i)).
        1 \<le> visits (h ! snd ac) \<and> 1 \<le> visits (h ! i) \<and>
        explore (wins (h ! snd ac)) (visits (h ! snd ac)) (visits (h ! i)) explore_faction
          = Inr (UCT h i (snd ac))) \<and>
     (\<exists>leaf. traverse_nodes h 0 brd state identity = Some (Inr leaf))"
proof -
  from think_loop_tree[OF tree_inv_root_tree, of n brd state identity brd state r]
  obtain h r' where
    run: "think_loop n brd state identity (root_tree brd state, r) = Some (Inr (h, r'))"
    and inv: "tree_inv h"
    by (elim exE conjE)
  from inv have l0: "0 < length h" by (simp add: tree_inv_def struct_inv_def)
  have "\<forall>i<length h. \<forall>ac\<in>set (child_nodes (h ! i)).
        1 \<le> visits (h ! snd ac) \<and> 1 \<le> visits (h ! i) \<and>
        explore (wins (h ! snd ac)) (visits (h ! snd ac)) (visits (h ! i)) explore_faction
          = Inr (UCT h i (snd ac))"
  proof (intro allI impI ballI)
    fix i ac assume i: "i < length h" and ac: "ac \<in> set (child_nodes (h ! i))"
    from tree_inv_children(4,5)[OF inv i ac]
    have c: "1 \<le> visits (h ! snd ac)" and p: "1 \<le> visits (h ! i)" by simp_all
    with explore_UCT[OF c p]
    show "1 \<le> visits (h ! snd ac) \<and> 1 \<le> visits (h ! i) \<and>
        explore (wins (h ! snd ac)) (visits (h ! snd ac)) (visits (h ! i)) explore_faction
          = Inr (UCT h i (snd ac))" by simp
  qed
  moreover from traverse_nodes_tree[OF inv l0, of brd state identity]
  have "\<exists>leaf. traverse_nodes h 0 brd state identity = Some (Inr leaf)" by blast
  ultimately show ?thesis using run by blast
qed

text \<open>The first child of the root after two iterations from two tokens.\<close>

theorem scored_children_visited_witness:
  "think_loop 2 nim (2, 1) 1 (root_tree nim (2, 1), rng0) = Some (Inr (tree_nim2, rng0)) \<and>
   (0::nat) < length tree_nim2 \<and> (1, 1) \<in> set (child_nodes (tree_nim2 ! 0)) \<and>
   1 \<le> visits (tree_nim2 ! 1) \<and> 1 \<le> visits (tree_nim2 ! 0) \<and>
   explore (wins (tree_nim2 ! 1)) (visits (tree_nim2 ! 1)) (visits (tree_nim2 ! 0))
     explore_faction = Inr (UCT tree_nim2 0 1)"
proof -
  from scored_children_visited[of 2 nim "(2, 1)" 1 rng0] obtain h r' where
    run: "think_loop 2 nim (2, 1) 1 (root_tree nim (2, 1), rng0) = Some (Inr (h, r'))" and
    all: "\<forall>i<length h. \<forall>ac\<in>set (child_nodes (h ! i)).
        1 \<le> visits (h ! snd ac) \<and> 1 \<le> visits (h ! i) \<and>
        explore (wins (h ! snd ac)) (visits (h ! snd ac)) (visits (h ! i)) explore_faction
          = Inr (UCT h i (snd ac))" by blast
  from run run_nim2 have h: "h = tree_nim2" by simp
  have len: "(0::nat) < length tree_nim2" by (simp add: tree_nim2_def)
  have mem: "(1::nat, 1::nat) \<in> set (child_nodes (tree_nim2 ! 0))" by (simp add: tree_nim2_def)
  from all[unfolded h, rule_format, OF len mem] len mem run_nim2 show ?thesis by simp
qed

lemma traverse_nodes_bare:
  "bare_root h \<Longrightarrow> traverse_nodes h 0 brd state identity = Some (Inr 0)"
  by (subst traverse_nodes.simps) (simp add: bare_root_def)

lemma mcts_step_bare:
  assumes "bare_root h"
  shows "\<exists>h'. mcts_step brd state identity (h, r) = Some (Inr (h', r)) \<and> bare_root h'"
proof -
  let ?won = "current_player brd state \<noteq> identity"
  from assms have l0: "0 < length h" and par: "parent (h ! 0) = None"
    and un: "untried_actions (h ! 0) = []"
    by (simp_all add: bare_root_def)
  have bp: "backpropagate h 0 ?won = Some (h[0 := bump ?won (h ! 0)])"
    using backpropagate_unfold[OF l0, of ?won] par by simp
  have "bare_root (h[0 := bump ?won (h ! 0)])"
    using assms by (simp add: bare_root_def bump_def)
  with mcts_step_unfold_keep[OF traverse_nodes_bare[OF assms] un bp] show ?thesis by blast
qed

lemma think_loop_bare:
  "bare_root h \<Longrightarrow>
   \<exists>h'. think_loop k brd state identity (h, r) = Some (Inr (h', r)) \<and> bare_root h'"
proof (induction k arbitrary: h)
  case 0
  then show ?case by simp
next
  case (Suc k)
  from mcts_step_bare[OF Suc.prems, of brd state identity r] obtain h1 where
    st: "mcts_step brd state identity (h, r) = Some (Inr (h1, r))" and b: "bare_root h1"
    by blast
  from Suc.IH[OF b] obtain h' where
    "think_loop k brd state identity (h1, r) = Some (Inr (h', r))" "bare_root h'" by blast
  with st show ?case by simp
qed

lemma think_n_no_actions:
  assumes "legal_actions brd state = []"
  shows "think_n n brd state r = Some (Inr None)"
proof -
  have "bare_root (root_tree brd state)"
    using assms by (simp add: bare_root_def root_tree_def MCTSNode_def)
  from think_loop_bare[OF this, of n brd state "current_player brd state" r] obtain h where
    run: "think_loop n brd state (current_player brd state) (root_tree brd state, r)
            = Some (Inr (h, r))" and b: "bare_root h" by blast
  from b have "best_action_loop h (child_nodes (h ! 0)) (None, 0) = Inr (None, 0)"
    by (simp add: bare_root_def)
  from think_n_unfold[OF run this] show ?thesis .
qed

text \<open>
  Claim C3, as amended. For a state without legal actions \<open>think\<close> raises nothing: it
  runs its iterations on a root that never gets a child and returns \<open>None\<close>.
\<close>

theorem think_without_actions_returns_None:
  assumes "legal_actions brd state = []"
  shows "think brd state r = Some (Inr None)"
  unfolding think_def by (rule think_n_no_actions[OF assms])

text \<open>The take-away game with no token left and identity 2 to move.\<close>

theorem think_without_actions_returns_None_witness:
  "legal_actions nim (0, 2) = [] \<and> think nim (0, 2) rng0 = Some (Inr None)"
proof -
  have "legal_actions nim (0, 2) = []" by (simp add: nim_def)
  with think_without_actions_returns_None[of nim "(0, 2)" rng0] show ?thesis by simp
qed

text \<open>
  Claim C3 as stated fails: for the ended state with no token left and identity 1 to
  move, \<open>think\<close> returns a value, \<open>None\<close>, and signals no error.
\<close>

theorem think_ended_state_no_error:
  "is_ended nim (0, 1) \<and> legal_actions nim (0, 1) = [] \<and>
   think nim (0, 1) rng0 = Some (Inr None)"
proof -
  have 1: "legal_actions nim (0, 1) = []" and 2: "is_ended nim (0, 1)"
    by (simp_all add: nim_def)
  from think_n_no_actions[OF 1, of num_nodes rng0] 1 2 show ?thesis
    by (simp add: think_def)
qed

section \<open>Selection and expansion: the state\<close>

lemma traverse_calls_tree:
  "tree_inv h \<Longrightarrow> n < length h \<Longrightarrow>
   \<exists>tr. traverse_calls h n brd state identity calls = Some (Inr (calls @ tr)) \<and>
        (\<forall>c\<in>set tr. snd c = state) \<and>
        traverse_nodes h n brd state identity = Some (Inr (last (n # map fst tr)))"
proof (induction "length h - n" arbitrary: n calls rule: less_induct)
  case less
  show ?case
  proof (cases "untried_actions (h ! n) = []")
    case False
    then have "traverse_calls h n brd state identity calls = Some (Inr (calls @ []))"
      by (subst traverse_calls.simps) simp
    moreover from False have "traverse_nodes h n brd state identity = Some (Inr n)"
      by (subst traverse_nodes.simps) simp
    ultimately show ?thesis by (intro exI[of _ "[]"]) simp
  next
    case True
    from traverse_loop_tree[OF less.prems] obtain b' m' where
      r: "traverse_loop h n (child_nodes (h ! n)) (0, n) = Inr (b', m')"
      and d: "b' = 0 \<and> m' = n \<or> 0 < b' \<and> n < m' \<and> m' < length h" by blast
    show ?thesis
    proof (cases "b' = 0")
      case z: True
      with d have mn: "m' = n" by simp
      from True r z have "traverse_calls h n brd state identity calls = Some (Inr (calls @ []))"
        by (subst traverse_calls.simps) simp
      moreover from True r z mn have "traverse_nodes h n brd state identity = Some (Inr n)"
        by (subst traverse_nodes.simps) simp
      ultimately show ?thesis by (intro exI[of _ "[]"]) simp
    next
      case nz: False
      with d have m: "n < m'" "m' < length h" by simp_all
      then have "length h - m' < length h - n" by simp
      from less.hyps[OF this less.prems(1) m(2), of "calls @ [(m', state)]"] obtain tr where
        c: "traverse_calls h m' brd state identity (calls @ [(m', state)])
              = Some (Inr ((calls @ [(m', state)]) @ tr))" and
        s: "\<forall>c\<in>set tr. snd c = state" and
        t: "traverse_nodes h m' brd state identity = Some (Inr (last (m' # map fst tr)))"
        by blast
      from True r nz
      have "traverse_calls h n brd state identity calls
              = traverse_calls h m' brd state identity (calls @ [(m', state)])"
        by (subst traverse_calls.simps) simp
      with c have 1: "traverse_calls h n brd state identity calls
              = Some (Inr (calls @ ((m', state) # tr)))" by simp
      from True r nz
      have "traverse_nodes h n brd state identity = traverse_nodes h m' brd state identity"
        by (subst traverse_nodes.simps) simp
      with t have 2: "traverse_nodes h n brd state identity
              = Some (Inr (last (n # map fst ((m', state) # tr))))" by simp
      from s have 3: "\<forall>c\<in>set ((m', state) # tr). snd c = state" by simp
      from 1 2 3 show ?thesis by blast
    qed
  qed
qed

text \<open>
  Claim C2, as amended. On a tree built by the driver, every call that
  \<open>traverse_nodes\<close> makes to itself receives the state that the outermost call
  received: no action is applied on the way down. The function returns the node of the
  innermost call and no state.
\<close>

theorem traverse_nodes_keeps_state:
  assumes "tree_inv h" and "node < length h"
  shows "\<exists>tr. traverse_calls h node brd state identity [] = Some (Inr tr) \<and>
           (\<forall>c\<in>set tr. snd c = state) \<and>
           traverse_nodes h node brd state identity = Some (Inr (last (node # map fst tr)))"
  using traverse_calls_tree[OF assms, of brd state identity "[]"] by simp

lemma tree_inv_tree_nim1: "tree_inv tree_nim1"
  by (rule think_loop_reaches_tree(1)[OF run_nim1])

lemma traverse_calls_nim1:
  "traverse_calls tree_nim1 0 nim (1, 1) 1 [] = Some (Inr [(1, (1, 1))])"
  by (simp add: traverse_calls.simps tree_nim1_def explore_def explore_faction_def)

text \<open>The tree after one iteration from one token: selection descends into the child.\<close>

theorem traverse_nodes_keeps_state_witness:
  "tree_inv tree_nim1 \<and> (0::nat) < length tree_nim1 \<and>
   traverse_calls tree_nim1 0 nim (1, 1) 1 [] = Some (Inr [(1, (1, 1))]) \<and>
   traverse_nodes tree_nim1 0 nim (1, 1) 1 = Some (Inr 1)"
proof -
  have len: "(0::nat) < length tree_nim1" by (simp add: tree_nim1_def)
  from traverse_nodes_keeps_state[OF tree_inv_tree_nim1 len, of nim "(1, 1)" 1] obtain tr where
    c: "traverse_calls tree_nim1 0 nim (1, 1) 1 [] = Some (Inr tr)" and
    t: "traverse_nodes tree_nim1 0 nim (1, 1) 1 = Some (Inr (last (0 # map fst tr)))" by blast
  from c traverse_calls_nim1 have "tr = [(1, (1, 1))]" by simp
  with t have "traverse_nodes tree_nim1 0 nim (1, 1) 1 = Some (Inr 1)"
    by simp
  with tree_inv_tree_nim1 len traverse_calls_nim1 show ?thesis by simp
qed

text \<open>
  Claim C2 as stated fails. After one iteration from one token with identity 1 to move,
  selection descends into the child reached by action 1. Applying that action to the
  state gives no token and identity 2 to move, but the call into the child receives the
  state with one token and identity 1 to move.
\<close>

theorem traverse_nodes_state_not_advanced:
  "think_loop 1 nim (1, 1) 1 (root_tree nim (1, 1), rng0) = Some (Inr (tree_nim1, rng0)) \<and>
   traverse_calls tree_nim1 0 nim (1, 1) 1 [] = Some (Inr [(1, (1, 1))]) \<and>
   parent_action (tree_nim1 ! 1) = Some 1 \<and>
   next_state nim (1, 1) 1 = (0, 2)"
  using run_nim1 traverse_calls_nim1 by (simp add: tree_nim1_def nim_def)

text \<open>
  \<open>expand_leaf\<close> of the iteration-count file, taken alone, does not look at the state:
  at an ended state it draws from the list of untried actions all the same, and raises
  \<open>IndexError\<close> when that list is empty. What keeps the empty list away is the test
  \<open>if leaf.untried_actions:\<close> in the driver.
\<close>

lemma expand_leaf_alone_on_ended_state:
  "is_ended nim (0, 1) \<and> untried_actions (bare_ended ! 0) = [] \<and>
   expand_leaf bare_ended 0 nim (0, 1) rng0 = Inl IndexError \<and>
   expand_leaf_vanilla bare_ended 0 nim (0, 1) rng0 = Inr (bare_ended, 0, (0, 1), rng0) \<and>
   untried_actions (tree_nim2 ! 1) = [1] \<and>
   expand_leaf tree_nim2 1 nim (0, 1) rng0 \<noteq> Inr (tree_nim2, 1, (0, 1), rng0) \<and>
   expand_leaf_vanilla tree_nim2 1 nim (0, 1) rng0 = Inr (tree_nim2, 1, (0, 1), rng0)"
  by (simp add: bare_ended_def root_tree_def MCTSNode_def nim_def expand_leaf_def
      expand_leaf_vanilla_def choice_def tree_nim2_def Let_def)

section \<open>The recursion limit: what it stops and what it leaves\<close>



lemma backpropagate_limit_refines:
  "backpropagate_limit d h n won = Inr h' \<Longrightarrow> backpropagate h n won = Some h'"
proof (induction d arbitrary: h n)
  case 0
  then show ?case by simp
next
  case (Suc d)
  let ?h1 = "if won then h[n := (h ! n)\<lparr>wins := wins (h ! n) + 1\<rparr>] else h"
  let ?h2 = "?h1[n := (?h1 ! n)\<lparr>visits := visits (?h1 ! n) + 1\<rparr>]"
  show ?case
  proof (cases "parent (?h2 ! n)")
    case None
    with Suc.prems have "h' = ?h2" by (simp add: Let_def)
    with None show ?thesis by (subst backpropagate.simps) (simp add: Let_def)
  next
    case (Some p)
    with Suc.prems have "backpropagate_limit d ?h2 p won = Inr h'" by (simp add: Let_def)
    from Suc.IH[OF this] Some show ?thesis by (subst backpropagate.simps) (simp add: Let_def)
  qed
qed



lemma chain_len_parent_eq:
  assumes "\<And>i. parent (h' ! i) = parent (h ! i)"
  shows "chain_len h n k \<Longrightarrow> chain_len h' n k"
proof (induction rule: chain_len.induct)
  case (root n)
  then have "parent (h' ! n) = None" by (simp add: assms)
  then show ?case by (rule chain_len.root)
next
  case (up n p k)
  then have "parent (h' ! n) = Some p" by (simp add: assms)
  then show ?case using up.IH by (rule chain_len.up)
qed

lemma chain_len_pos: "chain_len h n k \<Longrightarrow> 0 < k"
  by (induction rule: chain_len.induct) simp_all


lemma bump_step_parent:
  "parent ((if won then h[n := (h ! n)\<lparr>wins := wins (h ! n) + 1\<rparr>] else h)
            [n := ((if won then h[n := (h ! n)\<lparr>wins := wins (h ! n) + 1\<rparr>] else h) ! n)
                    \<lparr>visits := visits ((if won then h[n := (h ! n)\<lparr>wins := wins (h ! n) + 1\<rparr>]
                                          else h) ! n) + 1\<rparr>] ! i) = parent (h ! i)"
  by (cases "n < length h"; cases "i = n") (simp_all add: list_update_beyond not_less)

lemma backpropagate_limit_returns:
  "chain_len h n k \<Longrightarrow> k \<le> d \<Longrightarrow> \<exists>h'. backpropagate_limit d h n won = Inr h'"
proof (induction d arbitrary: h n k)
  case 0
  with chain_len_pos[OF "0.prems"(1)] show ?case by simp
next
  case (Suc d)
  let ?h1 = "if won then h[n := (h ! n)\<lparr>wins := wins (h ! n) + 1\<rparr>] else h"
  let ?h2 = "?h1[n := (?h1 ! n)\<lparr>visits := visits (?h1 ! n) + 1\<rparr>]"
  have par: "\<And>i. parent (?h2 ! i) = parent (h ! i)" by (rule bump_step_parent)
  have unf: "backpropagate_limit (Suc d) h n won =
      (case parent (h ! n) of None \<Rightarrow> Inr ?h2 | Some p \<Rightarrow> backpropagate_limit d ?h2 p won)"
    by (cases won; cases "n < length h";
        simp add: Let_def list_update_beyond not_less split: option.split)
  from Suc.prems(1) show ?case
  proof (cases rule: chain_len.cases)
    case root
    with unf show ?thesis by simp
  next
    case (up p k')
    from chain_len_parent_eq[of ?h2 h, OF par up(3)] have "chain_len ?h2 p k'" .
    moreover from up(1) Suc.prems(2) have "k' \<le> d" by simp
    ultimately obtain h' where "backpropagate_limit d ?h2 p won = Inr h'"
      using Suc.IH by blast
    with unf up(2) show ?thesis by simp
  qed
qed

lemma backpropagate_limit_raises:
  "chain_len h n k \<Longrightarrow> d < k \<Longrightarrow> \<exists>h'. backpropagate_limit d h n won = Inl (RecursionError, h')"
proof (induction d arbitrary: h n k)
  case 0
  then show ?case by simp
next
  case (Suc d)
  let ?h1 = "if won then h[n := (h ! n)\<lparr>wins := wins (h ! n) + 1\<rparr>] else h"
  let ?h2 = "?h1[n := (?h1 ! n)\<lparr>visits := visits (?h1 ! n) + 1\<rparr>]"
  have par: "\<And>i. parent (?h2 ! i) = parent (h ! i)" by (rule bump_step_parent)
  have unf: "backpropagate_limit (Suc d) h n won =
      (case parent (h ! n) of None \<Rightarrow> Inr ?h2 | Some p \<Rightarrow> backpropagate_limit d ?h2 p won)"
    by (cases won; cases "n < length h";
        simp add: Let_def list_update_beyond not_less split: option.split)
  from Suc.prems(1) show ?case
  proof (cases rule: chain_len.cases)
    case root
    with Suc.prems(2) show ?thesis by simp
  next
    case (up p k')
    from chain_len_parent_eq[of ?h2 h, OF par up(3)] have "chain_len ?h2 p k'" .
    moreover from up(1) Suc.prems(2) have "d < k'" by simp
    ultimately obtain h' where "backpropagate_limit d ?h2 p won = Inl (RecursionError, h')"
      using Suc.IH by blast
    with unf up(2) show ?thesis by simp
  qed
qed

section \<open>The recursion limit: room for a tree of the driver\<close>











section \<open>The recursion limit: the board with one action\<close>

lemma line_tree_length: "length (line_tree k) = Suc k"
  by (simp add: line_tree_def)

lemma line_tree_nth: "i \<le> k \<Longrightarrow> line_tree k ! i = line_node k i"
  unfolding line_tree_def by (subst nth_map) (simp_all del: upt_Suc)


lemma chain_len_line: "i \<le> k \<Longrightarrow> chain_len (line_tree k) i (Suc i)"
proof (induction i)
  case 0
  have "parent (line_tree k ! 0) = None" by (simp add: line_tree_nth line_node_def)
  then have "chain_len (line_tree k) 0 1" by (rule chain_len.root)
  then show ?case by simp
next
  case (Suc i)
  then have "parent (line_tree k ! Suc i) = Some i" by (simp add: line_tree_nth line_node_def)
  moreover from Suc have "chain_len (line_tree k) i (Suc i)" by simp
  ultimately show ?case by (rule chain_len.up)
qed

lemma backpropagate_limit_keeps_roots:
  "backpropagate_limit d h n won = Inl eh \<Longrightarrow> parent (h ! m) = None \<Longrightarrow> snd eh ! m = h ! m"
proof (induction d arbitrary: h n)
  case 0
  then show ?case by auto
next
  case (Suc d)
  let ?h1 = "if won then h[n := (h ! n)\<lparr>wins := wins (h ! n) + 1\<rparr>] else h"
  let ?h2 = "?h1[n := (?h1 ! n)\<lparr>visits := visits (?h1 ! n) + 1\<rparr>]"
  have par: "\<And>i. parent (?h2 ! i) = parent (h ! i)" by (rule bump_step_parent)
  have unf: "backpropagate_limit (Suc d) h n won =
      (case parent (h ! n) of None \<Rightarrow> Inr ?h2 | Some p \<Rightarrow> backpropagate_limit d ?h2 p won)"
    by (cases won; cases "n < length h";
        simp add: Let_def list_update_beyond not_less split: option.split)
  show ?case
  proof (cases "parent (h ! n)")
    case None
    with unf Suc.prems(1) show ?thesis by simp
  next
    case (Some p)
    with unf Suc.prems(1) have r: "backpropagate_limit d ?h2 p won = Inl eh" by simp
    from Suc.prems(2) par[of m] have "parent (?h2 ! m) = None" by simp
    from Suc.IH[OF r this] have "snd eh ! m = ?h2 ! m" .
    moreover from Some Suc.prems(2) have "m \<noteq> n" by auto
    ultimately show ?thesis by simp
  qed
qed
















section \<open>The recursion limit and backpropagation; expansion in the driver\<close>

text \<open>
  Claim C7, as amended. For every starting node whose parent chain has no more nodes than
  the interpreter still allows nested calls, and every \<open>won\<close>, \<open>backpropagate\<close>
  returns; in the store it returns, the nodes on the parent chain from the starting node
  (the starting node itself and the root included) have \<open>visits\<close> one higher, and
  \<open>wins\<close> one higher exactly when \<open>won\<close> holds; every other counter and every other
  field of every node is as before, and no node is added or removed.
\<close>

theorem backpropagate_limit_updates_chain:
  assumes "parents_below h" and "node < length h" and "chain_len h node k" and "k \<le> d"
  shows "\<exists>h'. backpropagate_limit d h node won = Inr h' \<and> length h' = length h \<and>
           on_chain h node node \<and>
           (\<exists>root. on_chain h node root \<and> parent (h ! root) = None) \<and>
           (\<forall>m<length h.
              visits (h' ! m) = visits (h ! m) + (if on_chain h node m then 1 else 0) \<and>
              wins (h' ! m) = wins (h ! m) + (if on_chain h node m \<and> won then 1 else 0) \<and>
              parent (h' ! m) = parent (h ! m) \<and>
              parent_action (h' ! m) = parent_action (h ! m) \<and>
              child_nodes (h' ! m) = child_nodes (h ! m) \<and>
              untried_actions (h' ! m) = untried_actions (h ! m))"
proof -
  from backpropagate_limit_returns[OF assms(3,4), of won] obtain h' where
    r: "backpropagate_limit d h node won = Inr h'" by blast
  from backpropagate_limit_refines[OF r] backpropagate_bumped[OF assms(1,2), of won]
  have "h' = bumped h node won" by simp
  with r have "backpropagate_limit d h node won = Inr (bumped h node won)" by simp
  moreover have "\<exists>root. on_chain h node root \<and> parent (h ! root) = None"
    by (rule on_chain_reaches_root[OF assms(1,2)])
  ultimately show ?thesis
    by (simp add: bumped_length bumped_nth bump_def on_chain.start)
qed

text \<open>
  Backpropagation with a win from the first child of a root with two children, with room
  for two nested calls: the child and the root are counted, the second child is not.
\<close>

theorem backpropagate_limit_updates_chain_witness:
  "parents_below tree3 \<and> (1::nat) < length tree3 \<and> chain_len tree3 1 2 \<and> (2::nat) \<le> 2 \<and>
   (\<exists>h'. backpropagate_limit 2 tree3 1 True = Inr h' \<and>
      visits (h' ! 0) = 1 \<and> wins (h' ! 0) = 1 \<and>
      visits (h' ! 1) = 1 \<and> wins (h' ! 1) = 1 \<and>
      visits (h' ! 2) = 0 \<and> wins (h' ! 2) = 0)"
proof -
  have pb: "parents_below tree3"
    by (simp add: parents_below_def tree3_def less_Suc_eq nth_Cons' numeral_3_eq_3)
  have len: "(1::nat) < length tree3" by (simp add: tree3_def)
  have p1: "parent (tree3 ! 1) = Some 0" and p0: "parent (tree3 ! 0) = None"
    by (simp_all add: tree3_def)
  have cl: "chain_len tree3 1 2"
    using chain_len.up[OF p1 chain_len.root[OF p0]] by (simp add: numeral_2_eq_2)
  have c1: "on_chain tree3 1 1" by (rule on_chain.start)
  have c0: "on_chain tree3 1 0" by (rule on_chain.step[OF p1 on_chain.start])
  have c2: "\<not> on_chain tree3 1 2"
    using on_chain_unfold[OF p1, of 2] on_chain_root[OF p0, of 2] by simp
  from backpropagate_limit_updates_chain[OF pb len cl, of 2 True] obtain h' where
    h': "backpropagate_limit 2 tree3 1 True = Inr h'" and
    all: "\<forall>m<length tree3.
              visits (h' ! m) = visits (tree3 ! m) + (if on_chain tree3 1 m then 1 else 0) \<and>
              wins (h' ! m) = wins (tree3 ! m) + (if on_chain tree3 1 m \<and> True then 1 else 0) \<and>
              parent (h' ! m) = parent (tree3 ! m) \<and>
              parent_action (h' ! m) = parent_action (tree3 ! m) \<and>
              child_nodes (h' ! m) = child_nodes (tree3 ! m) \<and>
              untried_actions (h' ! m) = untried_actions (tree3 ! m)"
    by auto
  have l0: "0 < length tree3" and l1: "1 < length tree3" and l2: "2 < length tree3"
    by (simp_all add: tree3_def)
  from all[rule_format, OF l0] all[rule_format, OF l1] all[rule_format, OF l2] c0 c1 c2
  have "visits (h' ! 0) = 1 \<and> wins (h' ! 0) = 1 \<and>
      visits (h' ! 1) = 1 \<and> wins (h' ! 1) = 1 \<and>
      visits (h' ! 2) = 0 \<and> wins (h' ! 2) = 0"
    by (simp add: tree3_def)
  with pb len cl h' show ?thesis by auto
qed

lemma parents_below_line_tree: "parents_below (line_tree k)"
  unfolding parents_below_def
proof (intro allI impI)
  fix i p assume "i < length (line_tree k)" "parent (line_tree k ! i) = Some p"
  then show "p < i"
    by (auto simp: line_tree_length line_tree_nth line_node_def split: if_splits)
qed

text \<open>
  Claim C7 as stated fails. On a chain of 1101 nodes, with 998 nested calls left (the
  default limit of 1000 leaves no more to a function that \<open>think\<close> calls),
  \<open>backpropagate\<close> from the deepest node raises \<open>RecursionError\<close>, and the root is
  as it was.
\<close>

theorem backpropagate_limit_stops_short:
  "parents_below (line_tree 1100) \<and> (1100::nat) < length (line_tree 1100) \<and>
   chain_len (line_tree 1100) 1100 1101 \<and>
   parent (line_tree 1100 ! 0) = None \<and>
   isl (backpropagate_limit 998 (line_tree 1100) 1100 True) \<and>
   fst (projl (backpropagate_limit 998 (line_tree 1100) 1100 True)) = RecursionError \<and>
   snd (projl (backpropagate_limit 998 (line_tree 1100) 1100 True)) ! 0 = line_tree 1100 ! 0"
proof -
  have cl: "chain_len (line_tree 1100) 1100 1101"
    using chain_len_line[of 1100 1100] by simp
  have p0: "parent (line_tree 1100 ! 0) = None" by (simp add: line_tree_nth line_node_def)
  from backpropagate_limit_raises[OF cl, of 998 True] obtain h' where
    r: "backpropagate_limit 998 (line_tree 1100) 1100 True = Inl (RecursionError, h')" by auto
  from backpropagate_limit_keeps_roots[OF r p0] have "h' ! 0 = line_tree 1100 ! 0" by simp
  with r cl p0 parents_below_line_tree[of 1100] show ?thesis
    by (simp add: line_tree_length)
qed








end
